theory Spec2Isabelle
  imports Complex_Main "HOL-Library.AList" "HOL-Library.Product_Lexorder"
begin

section \<open>JavaScript values and the platform\<close>

text \<open>
  The values that flow through the cache and the API wrapper. Numbers are integers here
  (millisecond counts and counters); \<open>NaN\<close> and fractions are outside the model.
  \<open>truthy\<close> is JavaScript's \<open>ToBoolean\<close>, which decides every \<open>if (x)\<close>,
  \<open>x || d\<close> and \<open>a && b\<close> of the source.
\<close>

datatype jsval =
    JUndefined
  | JNull
  | JBool bool
  | JNum int
  | JStr string
  | JObj "(string \<times> jsval) list"

fun truthy :: "jsval \<Rightarrow> bool" where
  "truthy JUndefined = False"
| "truthy JNull = False"
| "truthy (JBool b) = b"
| "truthy (JNum n) = (n \<noteq> 0)"
| "truthy (JStr s) = (s \<noteq> [])"
| "truthy (JObj fs) = True"

text \<open>\<open>key.startsWith(prefix)\<close>\<close>

fun startsWith :: "string \<Rightarrow> string \<Rightarrow> bool" where
  "startsWith s [] = True"
| "startsWith [] (p # ps) = False"
| "startsWith (c # s) (p # ps) = (c = p \<and> startsWith s ps)"

text \<open>
  The object \<open>CacheManager.set\<close> writes to the platform storage (util.js, lines 570 to 578).
\<close>

record cacheData =
  data :: jsval
  timestamp :: int
  expireTime :: int
  compressed :: bool
  priority :: string
  accessCount :: nat
  lastAccess :: int

text \<open>
  The platform storage (\<open>wx.*StorageSync\<close>) maps keys to values, and \<open>info.keys\<close> lists the
  keys in some order: an association list in that order. A value is either an object
  written by \<open>CacheManager.set\<close> or a value some other module stored (the search history,
  the user preferences). Such a foreign value has none of the cache fields. Read through
  the cache, every field of it is undefined; \<open>get\<close> then adds \<open>accessCount\<close> and
  \<open>lastAccess\<close> to it when it is an object (on a primitive value the two assignments
  have no effect: util.js is not in strict mode), which is the third kind of value,
  with the access count and the last access it has been given.
\<close>

datatype stored =
    Entry cacheData
  | Foreign jsval
  | Touched jsval nat int

fun is_object :: "jsval \<Rightarrow> bool" where
  "is_object (JObj fs) = True"
| "is_object v = False"

type_synonym wx_storage = "(string \<times> stored) list"

text \<open>
  Every call of the storage API sits in a \<open>try\<close> block of the source, so the model lets
  each call throw: \<open>wx_throws\<close> says which calls do. The platform also reports the size in
  use for given contents and the size limit, and provides \<open>JSON.stringify\<close>,
  \<open>JSON.parse\<close> (\<open>None\<close> when they throw) and \<open>wx.getSystemInfoSync\<close>. Its timers
  take the delay as a 32-bit signed integer: a delay below \<open>2 ^ 31\<close> ms is kept, and what
  becomes of a larger one is the platform's \<open>timer_overflow\<close> (a browser converts it to
  32 bits and fires at once when that is negative, Node fires after 1 ms).
\<close>

datatype wx_call =
    GetStorageInfoSync
  | GetStorageSync string
  | SetStorageSync string
  | RemoveStorageSync string

record platform =
  wx_throws :: "wx_call \<Rightarrow> bool"
  wx_currentSize :: "wx_storage \<Rightarrow> int"
  wx_limitSize :: int
  json_stringify :: "jsval \<Rightarrow> jsval option"
  json_parse :: "jsval \<Rightarrow> jsval option"
  wx_systemInfo :: "jsval option"
  timer_overflow :: "nat \<Rightarrow> nat"

text \<open>The delay after which a timer set with \<open>setTimeout(f, d)\<close> fires.\<close>

definition setTimeout_delay :: "platform \<Rightarrow> nat \<Rightarrow> nat" where
  "setTimeout_delay P d = (if d < 2 ^ 31 then d else timer_overflow P d)"

section \<open>CacheManager (src/utils/util.js)\<close>

record cache_stats =
  hits :: nat
  misses :: nat
  sets :: nat
  removes :: nat

text \<open>
  The state the cache works on: the platform storage, the statistics of the singleton,
  and the writes that \<open>get\<close> has deferred with \<open>setTimeout(..., 0)\<close> and that have not
  run yet, oldest first.
\<close>

record cache_state =
  storage :: wx_storage
  stats :: cache_stats
  timers :: "(string \<times> stored) list"

definition PREFIX :: string where
  "PREFIX = ''foodiefinder_cache_''"

definition DEFAULT_EXPIRE_TIME :: int where
  "DEFAULT_EXPIRE_TIME = 24 * 60 * 60 * 1000"

definition count_miss :: "cache_state \<Rightarrow> cache_state" where
  "count_miss c = c\<lparr>stats := (stats c)\<lparr>misses := misses (stats c) + 1\<rparr>\<rparr>"

definition count_hit :: "cache_state \<Rightarrow> cache_state" where
  "count_hit c = c\<lparr>stats := (stats c)\<lparr>hits := hits (stats c) + 1\<rparr>\<rparr>"

definition compressData :: "platform \<Rightarrow> jsval \<Rightarrow> jsval" where
  "compressData P d = (case json_stringify P d of Some s \<Rightarrow> s | None \<Rightarrow> d)"

definition decompressData :: "platform \<Rightarrow> jsval \<Rightarrow> jsval" where
  "decompressData P d = (case json_parse P d of Some v \<Rightarrow> v | None \<Rightarrow> d)"

text \<open>\<open>remove(key)\<close>: the result is the boolean the source returns.\<close>

definition remove :: "platform \<Rightarrow> string \<Rightarrow> cache_state \<Rightarrow> bool \<times> cache_state" where
  "remove P key c =
     (if wx_throws P (RemoveStorageSync (PREFIX @ key)) then (False, c)
      else (True, c\<lparr>storage := AList.delete (PREFIX @ key) (storage c),
                     stats := (stats c)\<lparr>removes := removes (stats c) + 1\<rparr>\<rparr>))"

text \<open>
  \<open>get(key)\<close> at the time \<open>now\<close> (what \<open>Date.now()\<close> returns). A missing key reads as the
  empty string, which is falsy. The expiry test is \<open>now - timestamp > expireTime\<close>, which
  is false of a value without these fields. On a hit the updated object is not written
  at once: the write is deferred; the value returned is the \<open>data\<close> field, undefined for
  a foreign value.
\<close>

definition get :: "platform \<Rightarrow> int \<Rightarrow> string \<Rightarrow> cache_state \<Rightarrow> jsval \<times> cache_state" where
  "get P now key c =
     (if wx_throws P (GetStorageSync (PREFIX @ key)) then (JNull, count_miss c)
      else case map_of (storage c) (PREFIX @ key) of
        None \<Rightarrow> (JNull, count_miss c)
      | Some (Foreign v) \<Rightarrow>
          if \<not> truthy v then (JNull, count_miss c)
          else
            let v' = (if is_object v then Touched v 1 now else Foreign v)
            in (JUndefined, count_hit (c\<lparr>timers := timers c @ [(PREFIX @ key, v')]\<rparr>))
      | Some (Touched v n t) \<Rightarrow>
          (JUndefined,
           count_hit (c\<lparr>timers := timers c @ [(PREFIX @ key, Touched v (n + 1) now)]\<rparr>))
      | Some (Entry cd) \<Rightarrow>
          if now - timestamp cd > expireTime cd
          then (JNull, count_miss (snd (remove P key c)))
          else
            let cd' = cd\<lparr>accessCount := accessCount cd + 1, lastAccess := now\<rparr>;
                c' = count_hit (c\<lparr>timers := timers c @ [(PREFIX @ key, Entry cd')]\<rparr>)
            in (if compressed cd then decompressData P (data cd) else data cd, c'))"

text \<open>
  The deferred writes run when the event loop reaches them; a write that throws is
  caught and logged.
\<close>

fun run_writes :: "platform \<Rightarrow> (string \<times> stored) list \<Rightarrow> wx_storage \<Rightarrow> wx_storage" where
  "run_writes P [] st = st"
| "run_writes P ((k, v) # ws) st =
     run_writes P ws (if wx_throws P (SetStorageSync k) then st else AList.update k v st)"

definition run_timers :: "platform \<Rightarrow> cache_state \<Rightarrow> cache_state" where
  "run_timers P c = c\<lparr>storage := run_writes P (timers c) (storage c), timers := []\<rparr>"

text \<open>\<open>info.keys.filter(key => key.startsWith(this.PREFIX))\<close>\<close>

definition cacheKeys :: "wx_storage \<Rightarrow> string list" where
  "cacheKeys st = filter (\<lambda>key. startsWith key PREFIX) (map fst st)"

text \<open>
  \<open>clear()\<close>: the loop over the keys stops at the first \<open>removeStorageSync\<close> that throws;
  what it removed before stays removed.
\<close>

fun remove_keys :: "platform \<Rightarrow> string list \<Rightarrow> wx_storage \<Rightarrow> bool \<times> wx_storage" where
  "remove_keys P [] st = (True, st)"
| "remove_keys P (k # ks) st =
     (if wx_throws P (RemoveStorageSync k) then (False, st)
      else remove_keys P ks (AList.delete k st))"

definition clear :: "platform \<Rightarrow> cache_state \<Rightarrow> bool \<times> cache_state" where
  "clear P c =
     (if wx_throws P GetStorageInfoSync then (False, c)
      else
        let keys = cacheKeys (storage c);
            (ok, st) = remove_keys P keys (storage c)
        in if ok
           then (True, c\<lparr>storage := st,
                          stats := (stats c)\<lparr>removes := removes (stats c) + length keys\<rparr>\<rparr>)
           else (False, c\<lparr>storage := st\<rparr>))"

text \<open>
  \<open>checkStorageSpace()\<close>: \<open>info.limitSize || 10240\<close>, \<open>info.currentSize || 0\<close>, and the
  quotient compared with 0.8 (computed exactly).
\<close>

definition checkStorageSpace :: "platform \<Rightarrow> cache_state \<Rightarrow> bool" where
  "checkStorageSpace P c =
     (if wx_throws P GetStorageInfoSync then True
      else
        let limitSize = (if wx_limitSize P \<noteq> 0 then wx_limitSize P else 10240);
            currentSize = wx_currentSize P (storage c)
        in (of_int currentSize / of_int limitSize :: rat) < 8 / 10)"

subsection \<open>Eviction by priority\<close>

record cacheItem =
  item_key :: string
  item_priority :: string
  item_lastAccess :: int
  item_accessCount :: nat
  item_timestamp :: int

definition item_of :: "string \<Rightarrow> cacheData \<Rightarrow> cacheItem" where
  "item_of k cd =
     \<lparr>item_key = k,
      item_priority = (if priority cd \<noteq> [] then priority cd else ''normal''),
      item_lastAccess = lastAccess cd,
      item_accessCount = accessCount cd,
      item_timestamp = timestamp cd\<rparr>"

text \<open>The item of a foreign value, with the access count and last access \<open>get\<close> gave it.\<close>

definition item_of_foreign :: "string \<Rightarrow> nat \<Rightarrow> int \<Rightarrow> cacheItem" where
  "item_of_foreign k n t =
     \<lparr>item_key = k, item_priority = ''normal'', item_lastAccess = t,
      item_accessCount = n, item_timestamp = 0\<rparr>"

text \<open>
  The first loop of \<open>cleanupByPriority\<close>: a key whose read throws is removed at once
  (the source calls it a damaged entry); a removal that throws there leaves the function
  through its outer \<open>catch\<close>, which is the \<open>False\<close> of the result.
\<close>

fun collect_items ::
  "platform \<Rightarrow> string list \<Rightarrow> wx_storage \<Rightarrow> cacheItem list \<Rightarrow> bool \<times> cacheItem list \<times> wx_storage"
where
  "collect_items P [] st items = (True, items, st)"
| "collect_items P (k # ks) st items =
     (if wx_throws P (GetStorageSync k)
      then (if wx_throws P (RemoveStorageSync k) then (False, items, st)
            else collect_items P ks (AList.delete k st) items)
      else case map_of st k of
        None \<Rightarrow> collect_items P ks st items
      | Some (Foreign v) \<Rightarrow>
          collect_items P ks st (if truthy v then items @ [item_of_foreign k 0 0] else items)
      | Some (Touched v n t) \<Rightarrow> collect_items P ks st (items @ [item_of_foreign k n t])
      | Some (Entry cd) \<Rightarrow> collect_items P ks st (items @ [item_of k cd]))"

text \<open>
  \<open>priorityWeight[p] || 2\<close> with \<open>priorityWeight = { low: 1, normal: 2, high: 3 }\<close>. The
  table is an object literal, so a name that \<open>Object.prototype\<close> defines finds the
  inherited member, which is truthy and not a number; any other name finds nothing and
  weighs 2.
\<close>

definition object_prototype_members :: "string list" where
  "object_prototype_members =
     [''constructor'', ''hasOwnProperty'', ''isPrototypeOf'', ''propertyIsEnumerable'',
      ''toLocaleString'', ''toString'', ''valueOf'', ''__proto__'',
      ''__defineGetter__'', ''__defineSetter__'', ''__lookupGetter__'', ''__lookupSetter__'']"

datatype weight = Weight nat | Inherited string

definition priorityWeight :: "string \<Rightarrow> weight" where
  "priorityWeight p =
     (if p = ''low'' then Weight 1 else if p = ''normal'' then Weight 2
      else if p = ''high'' then Weight 3
      else if p \<in> set object_prototype_members then Inherited p
      else Weight 2)"

text \<open>
  The comparison function handed to \<open>Array.prototype.sort\<close>; \<open>None\<close> is \<open>NaN\<close>, the
  difference of two weights that are not both numbers.
\<close>

definition compare_items :: "cacheItem \<Rightarrow> cacheItem \<Rightarrow> int option" where
  "compare_items a b =
     (let aPriority = priorityWeight (item_priority a);
          bPriority = priorityWeight (item_priority b)
      in if aPriority \<noteq> bPriority
         then (case (aPriority, bPriority) of
                 (Weight x, Weight y) \<Rightarrow> Some (int x - int y)
               | _ \<Rightarrow> None)
         else Some (int (item_accessCount a) - int (item_accessCount b)))"

text \<open>
  \<open>Array.prototype.sort\<close> is a stable sort by the comparison function: items that compare
  equal keep the order they had, and a comparison that yields \<open>NaN\<close> counts as 0. (Where
  the comparison function is not consistent, which here takes an inherited name among
  the priorities, the language leaves the order to the engine; the model then gives the
  order of an insertion sort.)
\<close>

definition nan_as_zero :: "('a \<Rightarrow> 'a \<Rightarrow> int option) \<Rightarrow> 'a \<Rightarrow> 'a \<Rightarrow> int" where
  "nan_as_zero cmp x y = (case cmp x y of None \<Rightarrow> 0 | Some v \<Rightarrow> v)"

fun insert_by :: "('a \<Rightarrow> 'a \<Rightarrow> int) \<Rightarrow> 'a \<Rightarrow> 'a list \<Rightarrow> 'a list" where
  "insert_by cmp x [] = [x]"
| "insert_by cmp x (y # ys) = (if cmp x y \<le> 0 then x # y # ys else y # insert_by cmp x ys)"

definition array_sort :: "('a \<Rightarrow> 'a \<Rightarrow> int) \<Rightarrow> 'a list \<Rightarrow> 'a list" where
  "array_sort cmp xs = foldr (insert_by cmp) xs []"

text \<open>The second loop: a removal that throws ends the function.\<close>

fun remove_items :: "platform \<Rightarrow> cacheItem list \<Rightarrow> cache_state \<Rightarrow> cache_state" where
  "remove_items P [] c = c"
| "remove_items P (a # as) c =
     (if wx_throws P (RemoveStorageSync (item_key a)) then c
      else remove_items P as
             (c\<lparr>storage := AList.delete (item_key a) (storage c),
                stats := (stats c)\<lparr>removes := removes (stats c) + 1\<rparr>\<rparr>))"

text \<open>
  \<open>Math.floor(cacheItems.length * 0.3)\<close>: for a list length the double product rounds to
  the exact value whenever that is an integer, so the floor is \<open>3 * n div 10\<close>.
\<close>

definition deleteCount :: "nat \<Rightarrow> nat" where
  "deleteCount n = (3 * n) div 10"

definition cleanupByPriority :: "platform \<Rightarrow> cache_state \<Rightarrow> cache_state" where
  "cleanupByPriority P c =
     (if wx_throws P GetStorageInfoSync then c
      else
        case collect_items P (cacheKeys (storage c)) (storage c) [] of
          (False, cacheItems, st) \<Rightarrow> c\<lparr>storage := st\<rparr>
        | (True, cacheItems, st) \<Rightarrow>
            let sorted_items = array_sort (nan_as_zero compare_items) cacheItems
            in remove_items P (take (deleteCount (length cacheItems)) sorted_items)
                 (c\<lparr>storage := st\<rparr>))"

text \<open>\<open>set(key, data, expireTime, options)\<close>\<close>

record set_options =
  compress :: bool
  opt_priority :: string

definition default_set_options :: set_options where
  "default_set_options = \<lparr>compress = False, opt_priority = ''normal''\<rparr>"

definition set_cache ::
  "platform \<Rightarrow> int \<Rightarrow> string \<Rightarrow> jsval \<Rightarrow> int \<Rightarrow> set_options \<Rightarrow> cache_state \<Rightarrow> bool \<times> cache_state"
where
  "set_cache P now key d expire opts c =
     (let cd = \<lparr>data = (if compress opts then compressData P d else d),
                timestamp = now,
                expireTime = expire,
                compressed = compress opts,
                priority = opt_priority opts,
                accessCount = 0,
                lastAccess = now\<rparr>;
          c1 = (if \<not> checkStorageSpace P c then cleanupByPriority P c else c)
      in if wx_throws P (SetStorageSync (PREFIX @ key)) then (False, c1)
         else (True, c1\<lparr>storage := AList.update (PREFIX @ key) (Entry cd) (storage c1),
                         stats := (stats c1)\<lparr>sets := sets (stats c1) + 1\<rparr>\<rparr>))"

section \<open>PerformanceMonitor (src/utils/util.js)\<close>

text \<open>
  Times are \<open>Date.now()\<close> readings in milliseconds. The running average is a JavaScript
  double in the source; the model computes it exactly, as a rational.
\<close>

record perf_record =
  startTime :: int
  endTime :: "int option"
  duration :: "int option"
  metadata :: jsval
  memoryUsage :: jsval
  endMemoryUsage :: "jsval option"

record slow_operation =
  slow_name :: string
  slow_duration :: int
  slow_timestamp :: int
  slow_metadata :: jsval

record fast_operation =
  fast_name :: string
  fast_duration :: int
  fast_timestamp :: int

record monitor_stats =
  totalOperations :: nat
  averageTime :: rat
  slowOperations :: "slow_operation list"
  fastOperations :: "fast_operation list"

record monitor_state =
  records :: "string \<rightharpoonup> perf_record"
  monitor_stats :: monitor_stats

fun js_field :: "jsval \<Rightarrow> string \<Rightarrow> jsval" where
  "js_field (JObj fs) name = (case map_of fs name of Some v \<Rightarrow> v | None \<Rightarrow> JUndefined)"
| "js_field v name = JUndefined"

text \<open>
  \<open>getMemoryUsage()\<close>: \<open>wx.getSystemInfoSync\<close> may throw (\<open>None\<close>), and reading a field of
  \<open>null\<close> or \<open>undefined\<close> throws as well; the \<open>catch\<close> answers with the error object.
\<close>

definition getMemoryUsage :: "platform \<Rightarrow> jsval" where
  "getMemoryUsage P =
     (case wx_systemInfo P of
        Some systemInfo \<Rightarrow>
          if systemInfo = JNull \<or> systemInfo = JUndefined
          then JObj [(''error'', JStr ''Unable to get memory info'')]
          else JObj [(''platform'', js_field systemInfo ''platform''),
                     (''version'', js_field systemInfo ''version''),
                     (''SDKVersion'', js_field systemInfo ''SDKVersion'')]
      | None \<Rightarrow> JObj [(''error'', JStr ''Unable to get memory info'')])"

definition monitor_start ::
  "platform \<Rightarrow> int \<Rightarrow> string \<Rightarrow> jsval \<Rightarrow> monitor_state \<Rightarrow> monitor_state" where
  "monitor_start P now name md m =
     m\<lparr>records := (records m)(name \<mapsto>
          \<lparr>startTime = now, endTime = None, duration = None, metadata = md,
           memoryUsage = getMemoryUsage P, endMemoryUsage = None\<rparr>)\<rparr>"

text \<open>\<open>xs.slice(-n)\<close>: the last \<open>n\<close> elements.\<close>

definition slice_last :: "nat \<Rightarrow> 'a list \<Rightarrow> 'a list" where
  "slice_last n xs = drop (length xs - n) xs"

text \<open>
  \<open>updateStats(name, record)\<close>: a duration that is still \<open>null\<close> counts as 0 in the
  arithmetic and in the comparison.
\<close>

definition updateStats :: "string \<Rightarrow> perf_record \<Rightarrow> monitor_state \<Rightarrow> monitor_state" where
  "updateStats name r m =
     (let d = (case duration r of Some d \<Rightarrow> d | None \<Rightarrow> 0);
          st = monitor_stats m;
          n = totalOperations st + 1;
          totalTime = averageTime st * (of_nat n - 1) + of_int d;
          st1 = st\<lparr>totalOperations := n, averageTime := totalTime / of_nat n\<rparr>;
          st2 = (if d < 1000
                 then (let fs = fastOperations st1 @
                                  [\<lparr>fast_name = name, fast_duration = d,
                                    fast_timestamp = startTime r\<rparr>]
                       in st1\<lparr>fastOperations := (if length fs > 50 then slice_last 50 fs else fs)\<rparr>)
                 else st1)
      in m\<lparr>monitor_stats := st2\<rparr>)"

text \<open>\<open>end(name)\<close>: the result is the duration the source returns, 0 without a record.\<close>

definition monitor_end ::
  "platform \<Rightarrow> int \<Rightarrow> string \<Rightarrow> monitor_state \<Rightarrow> int \<times> monitor_state" where
  "monitor_end P now name m =
     (case records m name of
        None \<Rightarrow> (0, m)
      | Some r0 \<Rightarrow>
          let d = now - startTime r0;
              r = r0\<lparr>endTime := Some now, duration := Some d,
                     endMemoryUsage := Some (getMemoryUsage P)\<rparr>;
              m1 = updateStats name r (m\<lparr>records := (records m)(name \<mapsto> r)\<rparr>);
              m2 = (if d > 5000
                    then (let ss = slowOperations (monitor_stats m1) @
                                     [\<lparr>slow_name = name, slow_duration = d,
                                       slow_timestamp = startTime r, slow_metadata = metadata r\<rparr>]
                          in m1\<lparr>monitor_stats := (monitor_stats m1)
                                 \<lparr>slowOperations := (if length ss > 20 then slice_last 20 ss else ss)\<rparr>\<rparr>)
                    else m1)
          in (d, m2))"

definition monitor_clear :: "monitor_state" where
  "monitor_clear =
     \<lparr>records = Map.empty,
      monitor_stats = \<lparr>totalOperations = 0, averageTime = 0,
                        slowOperations = [], fastOperations = []\<rparr>\<rparr>"

text \<open>A matched pair: \<open>start(name)\<close> at one time, \<open>end(name)\<close> at a later one.\<close>

definition measure_once ::
  "platform \<Rightarrow> string \<Rightarrow> int \<Rightarrow> int \<Rightarrow> monitor_state \<Rightarrow> int \<times> monitor_state" where
  "measure_once P name t0 t1 m = monitor_end P t1 name (monitor_start P t0 name (JObj []) m)"

section \<open>APIPerformanceOptimizer (src/unnamed/part_001)\<close>

subsection \<open>Errors, operations and the retry loop\<close>

text \<open>
  What \<open>optimizeAPICall\<close> can throw. The source throws \<open>Error\<close> objects that differ in
  their message: the circuit breaker's rejection (which names the API), the timeout of
  one attempt, and whatever the operation rejected with. A promise can be rejected with
  any value (and \<open>throw\<close> can throw any), also with \<open>null\<close> or \<open>undefined\<close>:
  \<open>NullishError\<close> is such a value, thrown on as it is, and \<open>TypeError\<close> is what reading
  \<open>error.message\<close> of it raises (part_001, lines 513 and 549).
\<close>

datatype error =
    CircuitOpenError string
  | TimeoutError
  | OperationError string
  | NullishError
  | TypeError

text \<open>
  What an operation rejects with: \<open>null\<close> or \<open>undefined\<close>, or any other value (an
  \<open>Error\<close>, a string, the \<open>{errMsg}\<close> object of a failed \<open>wx.request\<close>), of which the
  model keeps a description. Reading \<open>.message\<close> of the latter never throws.
\<close>

datatype rejection = Nullish | Reason string

text \<open>
  The caller's \<open>apiFunction\<close> is called once per attempt. The model gives it the attempt
  number and receives how that call's promise settles: resolved with a value or rejected
  after a latency in milliseconds, or never. Latency 0 is a promise that settles without
  a turn of the event loop (an already settled promise, or a synchronous throw, which
  the \<open>try\<close> of the loop catches like a rejection). In \<open>Promise.race\<close> the timeout timer,
  which is set first, wins against a latency that is not below the delay \<open>fires\<close> after
  which it fires.
\<close>

datatype outcome = Resolves nat jsval | Rejects nat rejection | Pending

type_synonym apiFunction = "nat \<Rightarrow> outcome"

fun thrown :: "rejection \<Rightarrow> error" where
  "thrown Nullish = NullishError"
| "thrown (Reason msg) = OperationError msg"

fun race :: "nat \<Rightarrow> outcome \<Rightarrow> (error + jsval) \<times> nat" where
  "race fires (Resolves d v) =
     (if d = 0 \<or> d < fires then (Inr v, d) else (Inl TimeoutError, fires))"
| "race fires (Rejects d r) =
     (if d = 0 \<or> d < fires then (Inl (thrown r), d) else (Inl TimeoutError, fires))"
| "race fires Pending = (Inl TimeoutError, fires)"

text \<open>One attempt: the operation raced against a timer set to \<open>timeout\<close>.\<close>

definition attempt :: "platform \<Rightarrow> nat \<Rightarrow> outcome \<Rightarrow> (error + jsval) \<times> nat" where
  "attempt P timeout out = race (setTimeout_delay P timeout) out"

text \<open>
  What \<open>executeWithRetry\<close> does, as seen from outside: its result, how often it called
  the operation, the delays it slept between attempts, and the time it took.
\<close>

record retry_result =
  rr_result :: "error + jsval"
  rr_calls :: nat
  rr_delays :: "nat list"
  rr_elapsed :: nat

definition backoff :: "nat \<Rightarrow> nat" where
  "backoff i = min (1000 * 2 ^ i) 5000"

text \<open>
  The loop \<open>for (let i = 0; i <= retryCount; i++)\<close>, from the iteration \<open>i\<close> on, with the
  \<open>lastError\<close> assigned so far (\<open>None\<close> while it is unassigned, which is \<open>undefined\<close>).
  Before it sleeps, the \<open>catch\<close> of an attempt logs \<open>error.message\<close> (line 549): of
  \<open>null\<close> or \<open>undefined\<close> that read throws a \<open>TypeError\<close> out of the loop. The last
  attempt logs nothing, and the loop ends with \<open>throw lastError\<close>.
\<close>

function retry_loop ::
  "platform \<Rightarrow> apiFunction \<Rightarrow> nat \<Rightarrow> nat \<Rightarrow> nat \<Rightarrow> error option \<Rightarrow> retry_result"
where
  "retry_loop P apiFunction retryCount timeout i lastError =
     (if i \<le> retryCount then
        (case attempt P timeout (apiFunction i) of
           (Inr v, d) \<Rightarrow>
             \<lparr>rr_result = Inr v, rr_calls = 1, rr_delays = [], rr_elapsed = d\<rparr>
         | (Inl e, d) \<Rightarrow>
             if i < retryCount \<and> e = NullishError
             then \<lparr>rr_result = Inl TypeError, rr_calls = 1, rr_delays = [], rr_elapsed = d\<rparr>
             else
               let slept = (if i < retryCount then [backoff i] else []);
                   r = retry_loop P apiFunction retryCount timeout (i + 1) (Some e)
               in r\<lparr>rr_calls := rr_calls r + 1,
                     rr_delays := slept @ rr_delays r,
                     rr_elapsed := d + sum_list slept + rr_elapsed r\<rparr>)
      else
        \<lparr>rr_result = Inl (case lastError of Some e \<Rightarrow> e | None \<Rightarrow> NullishError),
         rr_calls = 0, rr_delays = [], rr_elapsed = 0\<rparr>)"
  by pat_completeness auto
termination
  by (relation "measure (\<lambda>(P, f, retryCount, timeout, i, lastError). Suc retryCount - i)") auto

declare retry_loop.simps [simp del]

definition executeWithRetry :: "platform \<Rightarrow> apiFunction \<Rightarrow> nat \<Rightarrow> nat \<Rightarrow> retry_result" where
  "executeWithRetry P apiFunction retryCount timeout =
     retry_loop P apiFunction retryCount timeout 0 None"

subsection \<open>The optimizer's state\<close>

datatype breaker_state = Closed | Open | HalfOpen

record breaker =
  failureCount :: nat
  lastFailTime :: int
  state :: breaker_state
  threshold :: nat
  cooldownTime :: int

record api_metric =
  responseTime :: int
  success :: bool
  metric_error :: "error option"
  metric_timestamp :: int

text \<open>
  Everything a call of \<open>optimizeAPICall\<close> reads and writes: the clock (\<open>Date.now()\<close>), the
  two singletons of util.js, and the maps of the optimizer instance (\<open>retryStrategies\<close>
  is never read or written and is left out).
\<close>

record system =
  clock :: int
  cache :: cache_state
  monitor :: monitor_state
  apiMetrics :: "string \<rightharpoonup> api_metric list"
  circuitBreaker :: "string \<rightharpoonup> breaker"

record options =
  timeout :: nat
  retryCount :: nat
  cacheEnabled :: bool
  circuitBreakerEnabled :: bool

definition default_options :: options where
  "default_options =
     \<lparr>timeout = 5000, retryCount = 3, cacheEnabled = True, circuitBreakerEnabled = True\<rparr>"

definition isCircuitBreakerOpen :: "string \<Rightarrow> system \<Rightarrow> bool \<times> system" where
  "isCircuitBreakerOpen apiName w =
     (case circuitBreaker w apiName of
        None \<Rightarrow> (False, w)
      | Some b \<Rightarrow>
          if state b = Open \<and> clock w - lastFailTime b > cooldownTime b
          then (False, w\<lparr>circuitBreaker := (circuitBreaker w)(apiName \<mapsto> b\<lparr>state := HalfOpen\<rparr>)\<rparr>)
          else (state b = Open, w))"

definition new_breaker :: breaker where
  "new_breaker =
     \<lparr>failureCount = 0, lastFailTime = 0, state = Closed, threshold = 5, cooldownTime = 60000\<rparr>"

definition updateCircuitBreaker :: "string \<Rightarrow> system \<Rightarrow> system" where
  "updateCircuitBreaker apiName w =
     (let b0 = (case circuitBreaker w apiName of None \<Rightarrow> new_breaker | Some b \<Rightarrow> b);
          b1 = b0\<lparr>failureCount := failureCount b0 + 1, lastFailTime := clock w\<rparr>;
          b2 = (if failureCount b1 \<ge> threshold b1 then b1\<lparr>state := Open\<rparr> else b1)
      in w\<lparr>circuitBreaker := (circuitBreaker w)(apiName \<mapsto> b2)\<rparr>)"

definition resetCircuitBreaker :: "string \<Rightarrow> system \<Rightarrow> system" where
  "resetCircuitBreaker apiName w =
     (case circuitBreaker w apiName of
        None \<Rightarrow> w
      | Some b \<Rightarrow>
          w\<lparr>circuitBreaker := (circuitBreaker w)(apiName \<mapsto> b\<lparr>failureCount := 0, state := Closed\<rparr>)\<rparr>)"

definition recordAPIMetrics :: "string \<Rightarrow> api_metric \<Rightarrow> system \<Rightarrow> system" where
  "recordAPIMetrics apiName metrics w =
     (let old = (case apiMetrics w apiName of None \<Rightarrow> [] | Some ms \<Rightarrow> ms);
          ms = old @ [metrics\<lparr>metric_timestamp := clock w\<rparr>];
          ms' = (if length ms > 100 then drop (length ms - 100) ms else ms)
      in w\<lparr>apiMetrics := (apiMetrics w)(apiName \<mapsto> ms')\<rparr>)"

subsection \<open>optimizeAPICall\<close>

text \<open>
  Time passes only while the function awaits. When it does, the clock moves on and the
  deferred writes of the cache get their turn.
\<close>

definition pass_time :: "platform \<Rightarrow> nat \<Rightarrow> system \<Rightarrow> system" where
  "pass_time P d w =
     (if d = 0 then w
      else w\<lparr>clock := clock w + int d, cache := run_timers P (cache w)\<rparr>)"

text \<open>
  What a call reports: the value it returns or the error it throws, and, for the
  theorems, how often the operation was called and the delays slept between attempts.
\<close>

record call_result =
  result :: "error + jsval"
  op_calls :: nat
  delays :: "nat list"

definition monitor_end_sys :: "platform \<Rightarrow> string \<Rightarrow> system \<Rightarrow> system" where
  "monitor_end_sys P name w = w\<lparr>monitor := snd (monitor_end P (clock w) name (monitor w))\<rparr>"

text \<open>
  The \<open>catch\<close> block (part_001, lines 510 to 521). When what was thrown is \<open>null\<close> or
  \<open>undefined\<close>, reading \<open>error.message\<close> for the failure metric (line 513) throws a
  \<open>TypeError\<close>, after \<open>PerformanceMonitor.end\<close> and before the metric is recorded and the
  breaker updated: the call rejects with that \<open>TypeError\<close> and the two steps do not run.
\<close>

definition catch_block ::
  "platform \<Rightarrow> string \<Rightarrow> options \<Rightarrow> int \<Rightarrow> error \<Rightarrow> nat \<Rightarrow> nat list \<Rightarrow> system
     \<Rightarrow> call_result \<times> system"
where
  "catch_block P apiName opts started e calls slept w =
     (let rt = clock w - started;
          w1 = monitor_end_sys P (''api_'' @ apiName) w
      in if e = NullishError
         then (\<lparr>result = Inl TypeError, op_calls = calls, delays = slept\<rparr>, w1)
         else
           let w2 = recordAPIMetrics apiName
                      \<lparr>responseTime = rt, success = False, metric_error = Some e,
                       metric_timestamp = 0\<rparr> w1;
               w3 = (if circuitBreakerEnabled opts then updateCircuitBreaker apiName w2 else w2)
           in (\<lparr>result = Inl e, op_calls = calls, delays = slept\<rparr>, w3))"

definition optimizeAPICall ::
  "platform \<Rightarrow> string \<Rightarrow> apiFunction \<Rightarrow> options \<Rightarrow> system \<Rightarrow> call_result \<times> system"
where
  "optimizeAPICall P apiName apiFunction opts w =
     (let started = clock w;
          w1 = w\<lparr>monitor := monitor_start P (clock w) (''api_'' @ apiName) (JObj []) (monitor w)\<rparr>;
          (is_open, w2) = (if circuitBreakerEnabled opts then isCircuitBreakerOpen apiName w1
                           else (False, w1))
      in if is_open
         then catch_block P apiName opts started (CircuitOpenError apiName) 0 [] w2
         else
           let (cachedResult, w3) =
                 (if cacheEnabled opts
                  then (let (v, c) = get P (clock w2) (''api_'' @ apiName) (cache w2)
                        in (v, w2\<lparr>cache := c\<rparr>))
                  else (JUndefined, w2))
           in if cacheEnabled opts \<and> truthy cachedResult
              then (\<lparr>result = Inr cachedResult, op_calls = 0, delays = []\<rparr>, w3)
              else
                let r = executeWithRetry P apiFunction (retryCount opts) (timeout opts);
                    w4 = pass_time P (rr_elapsed r) w3
                in case rr_result r of
                     Inl e \<Rightarrow> catch_block P apiName opts started e (rr_calls r) (rr_delays r) w4
                   | Inr v \<Rightarrow>
                       let rt = clock w4 - started;
                           w5 = monitor_end_sys P (''api_'' @ apiName) w4;
                           w6 = recordAPIMetrics apiName
                                  \<lparr>responseTime = rt, success = True, metric_error = None,
                                   metric_timestamp = 0\<rparr> w5;
                           w7 = (if cacheEnabled opts \<and> truthy v
                                 then w6\<lparr>cache := snd (set_cache P (clock w6) (''api_'' @ apiName) v
                                                          (5 * 60 * 1000) default_set_options (cache w6))\<rparr>
                                 else w6);
                           w8 = resetCircuitBreaker apiName w7
                       in (\<lparr>result = Inr v, op_calls = rr_calls r, delays = rr_delays r\<rparr>, w8))"

text \<open>
  A sequence of calls made one after the other, each after a gap (in milliseconds) since
  the call before it returned.
\<close>

type_synonym invocation = "nat \<times> string \<times> apiFunction \<times> options"

fun run :: "platform \<Rightarrow> invocation list \<Rightarrow> system \<Rightarrow> call_result list \<times> system" where
  "run P [] w = ([], w)"
| "run P ((gap, apiName, apiFunction, opts) # cs) w =
     (let (r, w1) = optimizeAPICall P apiName apiFunction opts (pass_time P gap w);
          (rs, w2) = run P cs w1
      in (r # rs, w2))"

section \<open>Auxiliary notions for the statements\<close>

text \<open>
  The cache entries of a storage, as the first loop of \<open>cleanupByPriority\<close> lists them
  when no read throws: one item for each key with the cache prefix that holds a truthy
  value, in the order of the keys.
\<close>

fun items_of :: "wx_storage \<Rightarrow> cacheItem list" where
  "items_of [] = []"
| "items_of ((k, v) # st) =
     (if startsWith k PREFIX
      then (case v of
              Entry cd \<Rightarrow> item_of k cd # items_of st
            | Foreign w \<Rightarrow> if truthy w then item_of_foreign k 0 0 # items_of st else items_of st
            | Touched w n t \<Rightarrow> item_of_foreign k n t # items_of st)
      else items_of st)"

text \<open>
  The pair that \<open>compare_items\<close> orders by, under the lexicographic order, when no
  priority is the name of an inherited member.
\<close>

definition rank_weight :: "string \<Rightarrow> nat" where
  "rank_weight p = (if p = ''low'' then 1 else if p = ''high'' then 3 else 2)"

definition item_rank :: "cacheItem \<Rightarrow> nat \<times> nat" where
  "item_rank a = (rank_weight (item_priority a), item_accessCount a)"

text \<open>Matched pairs for one name, one after the other: \<open>(start time, end time)\<close> each.\<close>

fun measure_all :: "platform \<Rightarrow> string \<Rightarrow> (int \<times> int) list \<Rightarrow> monitor_state \<Rightarrow> monitor_state" where
  "measure_all P name [] m = m"
| "measure_all P name ((t0, t1) # ts) m = measure_all P name ts (snd (measure_once P name t0 t1 m))"

text \<open>
  The breaker of a name is open with its cooldown unexpired: the case in which
  \<open>isCircuitBreakerOpen\<close> answers \<open>true\<close>.
\<close>

definition breaker_blocks :: "string \<Rightarrow> system \<Rightarrow> bool" where
  "breaker_blocks apiName w =
     (case circuitBreaker w apiName of
        None \<Rightarrow> False
      | Some b \<Rightarrow> state b = Open \<and> clock w - lastFailTime b \<le> cooldownTime b)"

text \<open>The cache lookup of \<open>optimizeAPICall\<close> would find a truthy value.\<close>

definition cache_hit :: "platform \<Rightarrow> string \<Rightarrow> system \<Rightarrow> bool" where
  "cache_hit P apiName w = truthy (fst (get P (clock w) (''api_'' @ apiName) (cache w)))"

text \<open>
  The call gets as far as the operation: it is neither rejected by the breaker nor
  answered from the cache.
\<close>

definition reaches_operation :: "platform \<Rightarrow> string \<Rightarrow> options \<Rightarrow> system \<Rightarrow> bool" where
  "reaches_operation P apiName opts w =
     (\<not> (circuitBreakerEnabled opts \<and> breaker_blocks apiName w)
      \<and> \<not> (cacheEnabled opts \<and> cache_hit P apiName w))"

text \<open>
  The state of a call after its first two steps, \<open>PerformanceMonitor.start\<close> and, when the
  breaker is enabled, the breaker check.
\<close>

definition checked :: "platform \<Rightarrow> string \<Rightarrow> options \<Rightarrow> system \<Rightarrow> system" where
  "checked P apiName opts w =
     (let w1 = w\<lparr>monitor := monitor_start P (clock w) (''api_'' @ apiName) (JObj []) (monitor w)\<rparr>
      in if circuitBreakerEnabled opts then snd (isCircuitBreakerOpen apiName w1) else w1)"

text \<open>The steps of a call after the operation has succeeded (part_001, lines 496 to 507).\<close>

definition on_success :: "platform \<Rightarrow> string \<Rightarrow> options \<Rightarrow> int \<Rightarrow> jsval \<Rightarrow> system \<Rightarrow> system" where
  "on_success P apiName opts started v w4 =
     (let rt = clock w4 - started;
          w5 = monitor_end_sys P (''api_'' @ apiName) w4;
          w6 = recordAPIMetrics apiName
                 \<lparr>responseTime = rt, success = True, metric_error = None, metric_timestamp = 0\<rparr> w5;
          w7 = (if cacheEnabled opts \<and> truthy v
                then w6\<lparr>cache := snd (set_cache P (clock w6) (''api_'' @ apiName) v
                                         (5 * 60 * 1000) default_set_options (cache w6))\<rparr>
                else w6)
      in resetCircuitBreaker apiName w7)"

text \<open>
  The breaker of a name; while the optimizer has none for the name, the one that the
  first failure creates.
\<close>

definition breaker_of :: "string \<Rightarrow> system \<Rightarrow> breaker" where
  "breaker_of apiName w = (case circuitBreaker w apiName of None \<Rightarrow> new_breaker | Some b \<Rightarrow> b)"

text \<open>
  An attempt fails and the loop goes on to the next one: it failed with something whose
  \<open>message\<close> can be read.
\<close>

definition retried :: "(error + jsval) \<Rightarrow> bool" where
  "retried res = (isl res \<and> res \<noteq> Inl NullishError)"

text \<open>
  What the loop throws or returns when its last attempt, the one with number \<open>l\<close>, ended
  as \<open>res\<close>: the attempt's own result, but the \<open>TypeError\<close> of line 549 when a retry was
  left and the attempt had failed with \<open>null\<close> or \<open>undefined\<close>.
\<close>

definition loop_result :: "nat \<Rightarrow> nat \<Rightarrow> (error + jsval) \<Rightarrow> (error + jsval)" where
  "loop_result n l res = (if l < n \<and> res = Inl NullishError then Inl TypeError else res)"

text \<open>
  What a call rejects with or returns when the retry loop ended as \<open>res\<close>: the \<open>catch\<close>
  block turns \<open>null\<close> or \<open>undefined\<close> into a \<open>TypeError\<close> (line 513) and throws
  everything else on.
\<close>

definition rethrown :: "(error + jsval) \<Rightarrow> (error + jsval)" where
  "rethrown res = (if res = Inl NullishError then Inl TypeError else res)"

subsection \<open>Concrete states and operations\<close>

text \<open>
  A platform on which no call throws, and whose timers fire at once when the delay does
  not fit 32 bits.
\<close>

definition demo_platform :: platform where
  "demo_platform =
     \<lparr>wx_throws = (\<lambda>call. False), wx_currentSize = (\<lambda>st. 0), wx_limitSize = 10240,
      json_stringify = (\<lambda>v. Some v), json_parse = (\<lambda>v. Some v),
      wx_systemInfo = Some (JObj [(''platform'', JStr ''devtools'')]),
      timer_overflow = (\<lambda>d. 0)\<rparr>"

definition empty_stats :: cache_stats where
  "empty_stats = \<lparr>hits = 0, misses = 0, sets = 0, removes = 0\<rparr>"

text \<open>An entry written at time 1000 that lives for 500 ms.\<close>

definition demo_entry :: cacheData where
  "demo_entry =
     \<lparr>data = JNum 7, timestamp = 1000, expireTime = 500, compressed = False,
      priority = ''normal'', accessCount = 0, lastAccess = 1000\<rparr>"

definition demo_cache :: cache_state where
  "demo_cache =
     \<lparr>storage = [(PREFIX @ ''k'', Entry demo_entry), (''searchHistory'', Foreign (JStr ''soup''))],
      stats = empty_stats, timers = []\<rparr>"

text \<open>Four cache entries of mixed priority beside a key of another module.\<close>

definition entry_with :: "string \<Rightarrow> nat \<Rightarrow> cacheData" where
  "entry_with p n =
     \<lparr>data = JStr ''x'', timestamp = 0, expireTime = 1000, compressed = False,
      priority = p, accessCount = n, lastAccess = 0\<rparr>"

definition evict_cache :: cache_state where
  "evict_cache =
     \<lparr>storage = [(PREFIX @ ''a'', Entry (entry_with ''high'' 0)),
                 (PREFIX @ ''b'', Entry (entry_with ''low'' 5)),
                 (''searchHistory'', Foreign (JStr ''soup'')),
                 (PREFIX @ ''c'', Entry (entry_with ''low'' 2)),
                 (PREFIX @ ''d'', Entry (entry_with ''normal'' 1))],
      stats = empty_stats, timers = []\<rparr>"

text \<open>Four entries, one of them stored with the priority \<open>constructor\<close>.\<close>

definition inherited_cache :: cache_state where
  "inherited_cache =
     \<lparr>storage = [(PREFIX @ ''a'', Entry (entry_with ''high'' 9)),
                 (PREFIX @ ''b'', Entry (entry_with ''constructor'' 0)),
                 (PREFIX @ ''c'', Entry (entry_with ''low'' 0)),
                 (PREFIX @ ''d'', Entry (entry_with ''low'' 1))],
      stats = empty_stats, timers = []\<rparr>"

text \<open>A system in which nothing has happened yet, at time 0.\<close>

definition fresh_system :: system where
  "fresh_system =
     \<lparr>clock = 0,
      cache = \<lparr>storage = [], stats = empty_stats, timers = []\<rparr>,
      monitor = monitor_clear,
      apiMetrics = Map.empty,
      circuitBreaker = Map.empty\<rparr>"

text \<open>An operation that is down, and one that answers at once.\<close>

fun failing_api :: apiFunction where
  "failing_api i = Rejects 10 (Reason ''down'')"

fun working_api :: apiFunction where
  "working_api i = Resolves 10 (JStr ''ok'')"

text \<open>An operation that fails twice and then succeeds.\<close>

fun flaky_api :: apiFunction where
  "flaky_api i = (if i < 2 then Rejects 10 (Reason ''down'') else Resolves 10 (JStr ''ok''))"

text \<open>
  An operation that rejects with \<open>undefined\<close> (\<open>() => Promise.reject()\<close>), and one that
  does so twice and then succeeds.
\<close>

fun undefined_api :: apiFunction where
  "undefined_api i = Rejects 10 Nullish"

fun undefined_twice_api :: apiFunction where
  "undefined_twice_api i = (if i < 2 then Rejects 10 Nullish else Resolves 10 (JStr ''ok''))"

text \<open>An operation that never settles.\<close>

fun hanging_api :: apiFunction where
  "hanging_api i = Pending"


text \<open>The default options with the cache switched off.\<close>

definition no_cache_options :: options where
  "no_cache_options = default_options\<lparr>cacheEnabled := False\<rparr>"

text \<open>The same without retries: one attempt for each call.\<close>

definition no_retry_options :: options where
  "no_retry_options = default_options\<lparr>cacheEnabled := False, retryCount := 0\<rparr>"

text \<open>
  A breaker for the name \<open>X\<close> that tripped at time 50000, in a system whose clock shows
  \<open>t\<close>; and the same system with a cached result for \<open>X\<close>, written at time 0.
\<close>

definition tripped_breaker :: breaker where
  "tripped_breaker =
     \<lparr>failureCount = 5, lastFailTime = 50000, state = Open, threshold = 5, cooldownTime = 60000\<rparr>"

definition tripped_system :: "int \<Rightarrow> system" where
  "tripped_system t =
     fresh_system\<lparr>clock := t, circuitBreaker := [''X'' \<mapsto> tripped_breaker]\<rparr>"

text \<open>
  A closed breaker for \<open>X\<close> that has counted two failures, the last at time 500, in a
  system whose clock shows 1000.
\<close>

definition counting_breaker :: breaker where
  "counting_breaker =
     \<lparr>failureCount = 2, lastFailTime = 500, state = Closed, threshold = 5, cooldownTime = 60000\<rparr>"

definition counting_system :: system where
  "counting_system =
     fresh_system\<lparr>clock := 1000, circuitBreaker := [''X'' \<mapsto> counting_breaker]\<rparr>"

definition cached_entry :: cacheData where
  "cached_entry =
     \<lparr>data = JStr ''cached'', timestamp = 0, expireTime = 300000, compressed = False,
      priority = ''normal'', accessCount = 0, lastAccess = 0\<rparr>"

definition tripped_cached_system :: "int \<Rightarrow> system" where
  "tripped_cached_system t =
     (tripped_system t)
       \<lparr>cache := \<lparr>storage = [(PREFIX @ ''api_X'', Entry cached_entry)],
                  stats = empty_stats, timers = []\<rparr>\<rparr>"

section \<open>Properties of the cache\<close>

lemma remove_keys_ok:
  "\<forall>k\<in>set ks. \<not> wx_throws P (RemoveStorageSync k) \<Longrightarrow>
   remove_keys P ks st = (True, filter (\<lambda>kv. fst kv \<notin> set ks) st)"
proof (induction ks arbitrary: st)
  case Nil
  then show ?case by simp
next
  case (Cons k ks)
  have "filter (\<lambda>kv. fst kv \<notin> set ks) (AList.delete k st)
      = filter (\<lambda>kv. fst kv \<notin> set (k # ks)) st"
    by (induction st) (auto simp: AList.delete_eq)
  with Cons show ?case by simp
qed

lemma clear_ok:
  assumes "\<not> wx_throws P GetStorageInfoSync"
    and "\<forall>k. startsWith k PREFIX \<longrightarrow> \<not> wx_throws P (RemoveStorageSync k)"
  shows "clear P c =
     (True, c\<lparr>storage := filter (\<lambda>kv. \<not> startsWith (fst kv) PREFIX) (storage c),
               stats := (stats c)\<lparr>removes := removes (stats c) + length (cacheKeys (storage c))\<rparr>\<rparr>)"
proof -
  let ?ks = "cacheKeys (storage c)"
  have "remove_keys P ?ks (storage c) = (True, filter (\<lambda>kv. fst kv \<notin> set ?ks) (storage c))"
    using assms(2) by (intro remove_keys_ok) (simp add: cacheKeys_def)
  moreover have "filter (\<lambda>kv. fst kv \<notin> set ?ks) (storage c)
       = filter (\<lambda>kv. \<not> startsWith (fst kv) PREFIX) (storage c)"
    by (rule filter_cong) (auto simp: cacheKeys_def)
  ultimately show ?thesis using assms(1) by (simp add: clear_def)
qed

lemma cacheKeys_filter_none:
  "cacheKeys (filter (\<lambda>kv. \<not> startsWith (fst kv) PREFIX) st) = []"
  by (induction st) (auto simp: cacheKeys_def)

text \<open>
  Claim C10. \<open>clear()\<close> is idempotent: on a platform whose storage calls do not throw, and
  for any state of the cache, two consecutive calls both return \<open>true\<close>, and after each
  of them the storage holds no key with the cache prefix. The first call removes exactly
  the keys with the prefix, and the second changes nothing at all.
\<close>

theorem clear_idempotent:
  assumes "\<not> wx_throws P GetStorageInfoSync"
    and "\<forall>k. startsWith k PREFIX \<longrightarrow> \<not> wx_throws P (RemoveStorageSync k)"
  shows "fst (clear P c) = True
     \<and> cacheKeys (storage (snd (clear P c))) = []
     \<and> fst (clear P (snd (clear P c))) = True
     \<and> cacheKeys (storage (snd (clear P (snd (clear P c))))) = []
     \<and> snd (clear P (snd (clear P c))) = snd (clear P c)
     \<and> storage (snd (clear P c)) = filter (\<lambda>kv. \<not> startsWith (fst kv) PREFIX) (storage c)"
  by (simp add: clear_ok [OF assms] cacheKeys_filter_none)

theorem clear_idempotent_witness:
  "\<not> wx_throws demo_platform GetStorageInfoSync
   \<and> fst (clear demo_platform evict_cache) = True
   \<and> fst (clear demo_platform (snd (clear demo_platform evict_cache))) = True
   \<and> storage (snd (clear demo_platform evict_cache)) = [(''searchHistory'', Foreign (JStr ''soup''))]
   \<and> storage (snd (clear demo_platform (snd (clear demo_platform evict_cache))))
       = [(''searchHistory'', Foreign (JStr ''soup''))]"
proof -
  have h1: "\<not> wx_throws demo_platform GetStorageInfoSync"
    by (simp add: demo_platform_def)
  have h2: "\<forall>k. startsWith k PREFIX \<longrightarrow> \<not> wx_throws demo_platform (RemoveStorageSync k)"
    by (simp add: demo_platform_def)
  show ?thesis
    using h1 clear_idempotent [OF h1 h2, of evict_cache]
    by (simp add: evict_cache_def PREFIX_def)
qed

text \<open>
  Claim C6, as the code has it. With the entry readable and removable, \<open>get(key)\<close> serves
  the entry as long as \<open>now - timestamp \<le> expireTime\<close>, the boundary included: it returns
  the data, counts a hit and leaves the storage alone. Once \<open>now\<close> exceeds
  \<open>timestamp + expireTime\<close> it returns \<open>null\<close>, counts a miss and not a hit, and removes the
  entry from the storage, all other keys staying as they were.
\<close>

theorem get_expiry:
  assumes "map_of (storage c) (PREFIX @ key) = Some (Entry cd)"
    and "\<not> wx_throws P (GetStorageSync (PREFIX @ key))"
    and "\<not> wx_throws P (RemoveStorageSync (PREFIX @ key))"
  shows "(now - timestamp cd \<le> expireTime cd \<longrightarrow>
            fst (get P now key c) = (if compressed cd then decompressData P (data cd) else data cd)
          \<and> hits (stats (snd (get P now key c))) = hits (stats c) + 1
          \<and> misses (stats (snd (get P now key c))) = misses (stats c)
          \<and> storage (snd (get P now key c)) = storage c)
       \<and> (now > timestamp cd + expireTime cd \<longrightarrow>
            fst (get P now key c) = JNull
          \<and> misses (stats (snd (get P now key c))) = misses (stats c) + 1
          \<and> hits (stats (snd (get P now key c))) = hits (stats c)
          \<and> map_of (storage (snd (get P now key c))) (PREFIX @ key) = None
          \<and> storage (snd (get P now key c)) = AList.delete (PREFIX @ key) (storage c))"
  using assms
  by (simp add: get_def remove_def count_miss_def count_hit_def Let_def AList.delete_conv')

theorem get_expiry_witness:
  "map_of (storage demo_cache) (PREFIX @ ''k'') = Some (Entry demo_entry)
   \<and> fst (get demo_platform 1501 ''k'' demo_cache) = JNull
   \<and> misses (stats (snd (get demo_platform 1501 ''k'' demo_cache))) = 1
   \<and> storage (snd (get demo_platform 1501 ''k'' demo_cache))
       = [(''searchHistory'', Foreign (JStr ''soup''))]
   \<and> fst (get demo_platform 1500 ''k'' demo_cache) = JNum 7
   \<and> hits (stats (snd (get demo_platform 1500 ''k'' demo_cache))) = 1"
proof -
  have h1: "map_of (storage demo_cache) (PREFIX @ ''k'') = Some (Entry demo_entry)"
    by (simp add: demo_cache_def)
  have h2: "\<not> wx_throws demo_platform (GetStorageSync (PREFIX @ ''k''))"
    by (simp add: demo_platform_def)
  have h3: "\<not> wx_throws demo_platform (RemoveStorageSync (PREFIX @ ''k''))"
    by (simp add: demo_platform_def)
  show ?thesis
    using h1 get_expiry [OF h1 h2 h3, of 1501] get_expiry [OF h1 h2 h3, of 1500]
    by (simp add: demo_entry_def demo_cache_def empty_stats_def PREFIX_def)
qed

text \<open>
  The claim's bound \<open>now - createdAt < ttlMs\<close> fails at the boundary: the entry written
  at 1000 with a lifetime of 500 is still served at 1500.
\<close>

theorem get_boundary_counterexample:
  "fst (get demo_platform 1500 ''k'' demo_cache) = JNum 7
   \<and> \<not> ((1500::int) - timestamp demo_entry < expireTime demo_entry)"
  by (simp add: get_def demo_platform_def demo_entry_def demo_cache_def PREFIX_def count_hit_def)

subsection \<open>Eviction\<close>

lemma priorityWeight_own:
  "p \<notin> set object_prototype_members \<Longrightarrow> priorityWeight p = Weight (rank_weight p)"
  by (simp add: priorityWeight_def rank_weight_def)

lemma compare_items_le:
  assumes "item_priority a \<notin> set object_prototype_members"
    and "item_priority b \<notin> set object_prototype_members"
  shows "nan_as_zero compare_items a b \<le> 0 \<longleftrightarrow> item_rank a \<le> item_rank b"
  using assms
  by (auto simp: nan_as_zero_def compare_items_def item_rank_def Let_def priorityWeight_own)

lemma insert_by_insort:
  "\<forall>y\<in>set (x # ys). item_priority y \<notin> set object_prototype_members \<Longrightarrow>
   insert_by (nan_as_zero compare_items) x ys = insort_key item_rank x ys"
  by (induction ys) (simp_all add: compare_items_le)

lemma array_sort_sort_key:
  "\<forall>y\<in>set xs. item_priority y \<notin> set object_prototype_members \<Longrightarrow>
   array_sort (nan_as_zero compare_items) xs = sort_key item_rank xs"
proof (induction xs)
  case Nil
  then show ?case by (simp add: array_sort_def)
next
  case (Cons x xs)
  then have "array_sort (nan_as_zero compare_items) xs = sort_key item_rank xs"
    by simp
  moreover have "\<forall>y\<in>set (x # sort_key item_rank xs). item_priority y \<notin> set object_prototype_members"
    using Cons.prems by simp
  ultimately show ?case
    using insert_by_insort [of x "sort_key item_rank xs"]
    by (simp add: array_sort_def)
qed

lemma items_of_keys:
  "a \<in> set (items_of xs) \<Longrightarrow> startsWith (item_key a) PREFIX \<and> item_key a \<in> fst ` set xs"
proof (induction xs)
  case Nil
  then show ?case by simp
next
  case (Cons kv xs)
  obtain k v where kv: "kv = (k, v)" by (cases kv)
  show ?case
    using Cons unfolding kv
    by (cases v) (auto simp: item_of_def item_of_foreign_def split: if_splits)
qed

lemma collect_items_items_of:
  assumes "\<forall>k\<in>set (cacheKeys xs). \<not> wx_throws P (GetStorageSync k)"
    and "\<forall>(k, v)\<in>set xs. map_of st k = Some v"
  shows "collect_items P (cacheKeys xs) st acc = (True, acc @ items_of xs, st)"
  using assms
proof (induction xs arbitrary: acc rule: items_of.induct)
  case 1
  then show ?case by (simp add: cacheKeys_def)
next
  case (2 k v xs)
  then show ?case
    by (cases v) (auto simp: cacheKeys_def)
qed

lemma map_of_self: "distinct (map fst st) \<Longrightarrow> \<forall>(k, v)\<in>set st. map_of st k = Some v"
  by auto

lemma remove_items_ok:
  assumes "\<forall>a\<in>set xs. \<not> wx_throws P (RemoveStorageSync (item_key a))"
  shows "remove_items P xs c =
     c\<lparr>storage := filter (\<lambda>kv. fst kv \<notin> item_key ` set xs) (storage c),
        stats := (stats c)\<lparr>removes := removes (stats c) + length xs\<rparr>\<rparr>"
  using assms
proof (induction xs arbitrary: c)
  case Nil
  then show ?case by simp
next
  case (Cons a xs)
  have "filter (\<lambda>kv. fst kv \<notin> item_key ` set xs) (AList.delete (item_key a) st)
      = filter (\<lambda>kv. fst kv \<notin> item_key ` set (a # xs)) st" for st :: wx_storage
    by (induction st) (auto simp: AList.delete_eq)
  with Cons show ?case by simp
qed

lemma sorted_take_drop:
  assumes "sorted (map f xs)" "x \<in> set (take n xs)" "y \<in> set (drop n xs)"
  shows "f x \<le> f y"
proof -
  have "sorted (map f (take n xs) @ map f (drop n xs))"
    using assms(1) by (simp flip: map_append)
  then show ?thesis using assms(2,3) by (auto simp: sorted_append)
qed

text \<open>
  The entries of a storage all of whose cache keys hold entries written by \<open>set\<close>, none
  with the name of an inherited member for its priority.
\<close>

lemma items_of_entries:
  assumes "\<forall>(k, v)\<in>set st. startsWith k PREFIX \<longrightarrow>
             (\<exists>cd. v = Entry cd \<and> priority cd \<notin> set object_prototype_members)"
  shows "length (items_of st) = length (cacheKeys st)"
    and "\<forall>a\<in>set (items_of st). item_priority a \<notin> set object_prototype_members"
    and "(k, Entry cd) \<in> set st \<Longrightarrow> startsWith k PREFIX \<Longrightarrow> item_of k cd \<in> set (items_of st)"
  using assms
proof (induction st)
  case Nil
  {
    case 1 show ?case by (simp add: cacheKeys_def)
  next
    case 2 show ?case by simp
  next
    case 3 then show ?case by simp
  }
next
  case (Cons kv st)
  obtain k' v' where kv: "kv = (k', v')" by (cases kv)
  {
    case 1
    then show ?case
      using Cons.IH(1) unfolding kv
      by (cases v') (auto simp: cacheKeys_def)
  next
    case 2
    then show ?case
      using Cons.IH(2) unfolding kv
      by (cases v') (auto simp: item_of_def object_prototype_members_def split: if_splits)
  next
    case 3
    then show ?case
      using Cons.IH(3) unfolding kv
      by (cases v') (auto split: if_splits)
  }
qed

lemma cleanupByPriority_ok:
  assumes "\<not> wx_throws P GetStorageInfoSync"
    and "\<forall>k. startsWith k PREFIX \<longrightarrow> \<not> wx_throws P (GetStorageSync k) \<and> \<not> wx_throws P (RemoveStorageSync k)"
    and "distinct (map fst (storage c))"
    and "\<forall>a\<in>set (items_of (storage c)). item_priority a \<notin> set object_prototype_members"
  shows "cleanupByPriority P c =
    c\<lparr>storage := filter (\<lambda>kv. fst kv \<notin> item_key ` set (take (deleteCount (length (items_of (storage c))))
                          (sort_key item_rank (items_of (storage c))))) (storage c),
       stats := (stats c)\<lparr>removes := removes (stats c) + deleteCount (length (items_of (storage c)))\<rparr>\<rparr>"
proof -
  let ?items = "items_of (storage c)"
  let ?del = "take (deleteCount (length ?items)) (sort_key item_rank ?items)"
  have keys: "\<forall>k\<in>set (cacheKeys (storage c)). startsWith k PREFIX"
    by (simp add: cacheKeys_def)
  have col: "collect_items P (cacheKeys (storage c)) (storage c) [] = (True, ?items, storage c)"
    using collect_items_items_of [of "storage c" P "storage c" "[]"] keys assms(2)
      map_of_self [OF assms(3)] by simp
  have "set ?del \<subseteq> set ?items"
    by (metis set_sort set_take_subset)
  then have "\<forall>a\<in>set ?del. startsWith (item_key a) PREFIX"
    using items_of_keys [of _ "storage c"] by blast
  then have rem: "\<forall>a\<in>set ?del. \<not> wx_throws P (RemoveStorageSync (item_key a))"
    using assms(2) by blast
  have len: "min (length ?items) (deleteCount (length ?items)) = deleteCount (length ?items)"
    by (simp add: deleteCount_def)
  show ?thesis
    using assms(1) col
    by (simp add: cleanupByPriority_def array_sort_sort_key [OF assms(4)] remove_items_ok [OF rem] len)
qed

lemma items_of_distinct:
  "distinct (map fst st) \<Longrightarrow> distinct (map item_key (items_of st))"
proof (induction st)
  case Nil
  then show ?case by simp
next
  case (Cons kv st)
  obtain k v where kv: "kv = (k, v)" by (cases kv)
  have "k \<notin> item_key ` set (items_of st)"
    using Cons.prems items_of_keys [of _ st] unfolding kv by auto
  then show ?case
    using Cons unfolding kv
    by (cases v) (auto simp: item_of_def item_of_foreign_def)
qed

text \<open>
  Every key that the eviction removes is the key of an item that sorts no later than
  the item of any cache key it keeps.
\<close>

lemma cleanupByPriority_lowest:
  assumes "\<not> wx_throws P GetStorageInfoSync"
    and "\<forall>k. startsWith k PREFIX \<longrightarrow>
           \<not> wx_throws P (GetStorageSync k) \<and> \<not> wx_throws P (RemoveStorageSync k)"
    and "distinct (map fst (storage c))"
    and "\<forall>a\<in>set (items_of (storage c)). item_priority a \<notin> set object_prototype_members"
    and "removed = {k \<in> fst ` set (storage c). k \<notin> fst ` set (storage (cleanupByPriority P c))}"
  shows "removed \<subseteq> item_key ` set (items_of (storage c))"
    and "card removed = deleteCount (length (items_of (storage c)))"
    and "a \<in> set (items_of (storage c)) \<Longrightarrow> b \<in> set (items_of (storage c)) \<Longrightarrow>
         item_key a \<in> removed \<Longrightarrow> item_key b \<notin> removed \<Longrightarrow> item_rank a \<le> item_rank b"
    and "storage (cleanupByPriority P c) = filter (\<lambda>kv. fst kv \<notin> removed) (storage c)"
    and "removes (stats (cleanupByPriority P c))
           = removes (stats c) + deleteCount (length (items_of (storage c)))"
proof -
  let ?items = "items_of (storage c)"
  let ?sorted = "sort_key item_rank ?items"
  let ?d = "deleteCount (length ?items)"
  let ?D = "item_key ` set (take ?d ?sorted)"
  note ok = cleanupByPriority_ok [OF assms(1,2,3,4)]
  have sub: "set (take ?d ?sorted) \<subseteq> set ?items"
    by (metis set_sort set_take_subset)
  have Dkeys: "?D \<subseteq> fst ` set (storage c)"
    using sub items_of_keys [of _ "storage c"] by blast
  have removed: "removed = ?D"
    unfolding assms(5) ok using Dkeys by (auto simp: image_iff)
  have dist: "distinct (map item_key ?sorted)"
    using items_of_distinct [OF assms(3)] by (simp add: distinct_map)
  have inj: "inj_on item_key (set ?items)"
    using items_of_distinct [OF assms(3)] by (simp add: distinct_map)
  have "distinct (map item_key (take ?d ?sorted))"
    using dist by (simp add: distinct_take flip: take_map)
  then have "card ?D = length (take ?d ?sorted)"
    by (metis distinct_card length_map set_map)
  then show "card removed = ?d"
    unfolding removed by (simp add: deleteCount_def)
  show "item_rank a \<le> item_rank b"
    if "a \<in> set ?items" "b \<in> set ?items" "item_key a \<in> removed" "item_key b \<notin> removed"
  proof -
    from that(3) obtain a' where a': "a' \<in> set (take ?d ?sorted)" "item_key a' = item_key a"
      unfolding removed by auto
    with sub inj that(1) have "a' = a" by (auto dest: inj_onD)
    with a' have a_in: "a \<in> set (take ?d ?sorted)" by simp
    have "b \<notin> set (take ?d ?sorted)" using that(4) unfolding removed by auto
    moreover have "b \<in> set (take ?d ?sorted @ drop ?d ?sorted)"
      using that(2) by simp
    ultimately have b_in: "b \<in> set (drop ?d ?sorted)"
      unfolding set_append by blast
    show ?thesis
      by (rule sorted_take_drop [OF _ a_in b_in]) simp
  qed
  show "removed \<subseteq> item_key ` set ?items"
    unfolding removed using sub by blast
  show "storage (cleanupByPriority P c) = filter (\<lambda>kv. fst kv \<notin> removed) (storage c)"
    unfolding removed by (simp add: ok)
  show "removes (stats (cleanupByPriority P c)) = removes (stats c) + ?d"
    by (simp add: ok)
qed

text \<open>
  Claim C7. Let \<open>cleanupByPriority\<close> run on a platform whose storage calls do not throw,
  over a storage with distinct keys in which every key with the cache prefix holds an
  entry written by \<open>set\<close> (\<open>N\<close> entries), none with the name of a member of
  \<open>Object.prototype\<close> for its priority. Then the keys it removes are cache keys, there
  are exactly \<open>floor (0.3 * N)\<close> of them, and nothing else in the storage changes. Every
  removed entry comes no later than every kept entry in the order by the weight of the
  stored priority (\<open>low\<close> 1, \<open>high\<close> 3, \<open>normal\<close> and any other name 2) and, among equal
  weights, by the stored access count: the weight of the removed one is smaller, or the
  weights are equal and its access count is not larger. The \<open>removes\<close> counter grows by
  the number removed.
\<close>

theorem cleanupByPriority_evicts_lowest:
  assumes "\<not> wx_throws P GetStorageInfoSync"
    and "\<forall>k. startsWith k PREFIX \<longrightarrow>
           \<not> wx_throws P (GetStorageSync k) \<and> \<not> wx_throws P (RemoveStorageSync k)"
    and "distinct (map fst (storage c))"
    and "\<forall>(k, v)\<in>set (storage c). startsWith k PREFIX \<longrightarrow>
           (\<exists>cd. v = Entry cd \<and> priority cd \<notin> set object_prototype_members)"
    and "removed = {k \<in> fst ` set (storage c). k \<notin> fst ` set (storage (cleanupByPriority P c))}"
    and "weight = (\<lambda>p. if p = ''low'' then 1 else if p = ''high'' then 3 else (2::nat))"
    and "N = length (filter (\<lambda>kv. startsWith (fst kv) PREFIX) (storage c))"
  shows "(\<forall>k\<in>removed. startsWith k PREFIX)
     \<and> card removed = (3 * N) div 10
     \<and> storage (cleanupByPriority P c) = filter (\<lambda>kv. fst kv \<notin> removed) (storage c)
     \<and> (\<forall>k cd k' cd'.
           map_of (storage c) k = Some (Entry cd) \<and> k \<in> removed
           \<and> map_of (storage c) k' = Some (Entry cd') \<and> startsWith k' PREFIX \<and> k' \<notin> removed
           \<longrightarrow> weight (priority cd) < weight (priority cd')
               \<or> weight (priority cd) = weight (priority cd')
                 \<and> accessCount cd \<le> accessCount cd')
     \<and> removes (stats (cleanupByPriority P c)) = removes (stats c) + (3 * N) div 10"
proof -
  let ?items = "items_of (storage c)"
  note ent = items_of_entries [OF assms(4)]
  note low = cleanupByPriority_lowest [OF assms(1,2,3) ent(2) assms(5)]
  have N: "length ?items = N"
    unfolding assms(7) ent(1) by (simp add: cacheKeys_def comp_def)
  have c1: "\<forall>k\<in>removed. startsWith k PREFIX"
    using low(1) items_of_keys [of _ "storage c"] by blast
  have c2: "card removed = (3 * N) div 10"
    using low(2) N by (simp add: deleteCount_def)
  have c5: "removes (stats (cleanupByPriority P c)) = removes (stats c) + (3 * N) div 10"
    using low(5) N by (simp add: deleteCount_def)
  have c4: "weight (priority cd) < weight (priority cd')
          \<or> weight (priority cd) = weight (priority cd') \<and> accessCount cd \<le> accessCount cd'"
    if "map_of (storage c) k = Some (Entry cd)" "k \<in> removed"
      "map_of (storage c) k' = Some (Entry cd')" "startsWith k' PREFIX" "k' \<notin> removed"
    for k cd k' cd'
  proof -
    have k: "(k, Entry cd) \<in> set (storage c)" "(k', Entry cd') \<in> set (storage c)"
      using that(1,3) by (auto dest: map_of_SomeD)
    have pk: "startsWith k PREFIX" using c1 that(2) by blast
    have a: "item_of k cd \<in> set ?items" using ent(3) [OF k(1) pk] .
    have b: "item_of k' cd' \<in> set ?items" using ent(3) [OF k(2) that(4)] .
    have "item_rank (item_of k cd) \<le> item_rank (item_of k' cd')"
      using low(3) [OF a b] that(2,5) by (simp add: item_of_def)
    then show ?thesis
      unfolding assms(6)
      by (auto simp: item_rank_def item_of_def rank_weight_def less_eq_prod_def split: if_splits)
  qed
  show ?thesis
    using c1 c2 low(4) c4 c5 by blast
qed

theorem cleanupByPriority_evicts_lowest_witness:
  "distinct (map fst (storage evict_cache))
   \<and> length (filter (\<lambda>kv. startsWith (fst kv) PREFIX) (storage evict_cache)) = 4
   \<and> {k \<in> fst ` set (storage evict_cache).
         k \<notin> fst ` set (storage (cleanupByPriority demo_platform evict_cache))} = {PREFIX @ ''c''}
   \<and> storage (cleanupByPriority demo_platform evict_cache) =
       [(PREFIX @ ''a'', Entry (entry_with ''high'' 0)),
        (PREFIX @ ''b'', Entry (entry_with ''low'' 5)),
        (''searchHistory'', Foreign (JStr ''soup'')),
        (PREFIX @ ''d'', Entry (entry_with ''normal'' 1))]
   \<and> removes (stats (cleanupByPriority demo_platform evict_cache)) = 1"
proof -
  have h1: "\<not> wx_throws demo_platform GetStorageInfoSync"
    by (simp add: demo_platform_def)
  have h2: "\<forall>k. startsWith k PREFIX \<longrightarrow>
      \<not> wx_throws demo_platform (GetStorageSync k) \<and> \<not> wx_throws demo_platform (RemoveStorageSync k)"
    by (simp add: demo_platform_def)
  have h3: "distinct (map fst (storage evict_cache))"
    by (simp add: evict_cache_def PREFIX_def)
  have h4: "\<forall>(k, v)\<in>set (storage evict_cache). startsWith k PREFIX \<longrightarrow>
      (\<exists>cd. v = Entry cd \<and> priority cd \<notin> set object_prototype_members)"
    by (simp add: evict_cache_def PREFIX_def entry_with_def object_prototype_members_def)
  have n: "length (filter (\<lambda>kv. startsWith (fst kv) PREFIX) (storage evict_cache)) = 4"
    by (simp add: evict_cache_def PREFIX_def)
  have st: "storage (cleanupByPriority demo_platform evict_cache) =
       [(PREFIX @ ''a'', Entry (entry_with ''high'' 0)),
        (PREFIX @ ''b'', Entry (entry_with ''low'' 5)),
        (''searchHistory'', Foreign (JStr ''soup'')),
        (PREFIX @ ''d'', Entry (entry_with ''normal'' 1))]"
    by (simp add: cleanupByPriority_def evict_cache_def demo_platform_def cacheKeys_def PREFIX_def
        item_of_def entry_with_def array_sort_def nan_as_zero_def compare_items_def
        priorityWeight_def deleteCount_def)
  have rm: "{k \<in> fst ` set (storage evict_cache).
         k \<notin> fst ` set (storage (cleanupByPriority demo_platform evict_cache))} = {PREFIX @ ''c''}"
    unfolding st by (auto simp: evict_cache_def PREFIX_def)
  show ?thesis
    using h3 n st rm cleanupByPriority_evicts_lowest [OF h1 h2 h3 h4 refl refl refl]
    by (simp add: evict_cache_def empty_stats_def)
qed

text \<open>
  A priority that names an inherited member makes the comparison \<open>NaN\<close>: of a \<open>high\<close>
  entry and one stored with the priority \<open>constructor\<close>, the \<open>high\<close> entry is the one
  that goes when it comes first in the storage.
\<close>

lemma inherited_priority_example:
  "storage (cleanupByPriority demo_platform inherited_cache) =
     [(PREFIX @ ''b'', Entry (entry_with ''constructor'' 0)),
      (PREFIX @ ''c'', Entry (entry_with ''low'' 0)),
      (PREFIX @ ''d'', Entry (entry_with ''low'' 1))]"
  by (simp add: cleanupByPriority_def inherited_cache_def demo_platform_def cacheKeys_def PREFIX_def
      item_of_def entry_with_def array_sort_def nan_as_zero_def compare_items_def
      priorityWeight_def object_prototype_members_def deleteCount_def)

section \<open>Properties of the monitor\<close>

lemma monitor_end_step:
  assumes "records m name = Some r"
  shows "fst (monitor_end P now name m) = now - startTime r"
    and "totalOperations (monitor_stats (snd (monitor_end P now name m)))
           = totalOperations (monitor_stats m) + 1"
    and "averageTime (monitor_stats (snd (monitor_end P now name m)))
           = (averageTime (monitor_stats m) * (of_nat (totalOperations (monitor_stats m) + 1) - 1)
                + of_int (now - startTime r)) / of_nat (totalOperations (monitor_stats m) + 1)"
  using assms by (simp_all add: monitor_end_def updateStats_def Let_def)

lemma measure_once_step:
  "fst (measure_once P name t0 t1 m) = t1 - t0"
  "totalOperations (monitor_stats (snd (measure_once P name t0 t1 m)))
     = totalOperations (monitor_stats m) + 1"
  "averageTime (monitor_stats (snd (measure_once P name t0 t1 m)))
     = (averageTime (monitor_stats m) * of_nat (totalOperations (monitor_stats m)) + of_int (t1 - t0))
         / of_nat (totalOperations (monitor_stats m) + 1)"
  unfolding measure_once_def
  by (simp_all add: monitor_end_step [where r = "\<lparr>startTime = t0, endTime = None, duration = None,
        metadata = JObj [], memoryUsage = getMemoryUsage P, endMemoryUsage = None\<rparr>"]
        monitor_start_def)

lemma measure_all_mean:
  "totalOperations (monitor_stats (measure_all P name ts m))
      = totalOperations (monitor_stats m) + length ts
   \<and> averageTime (monitor_stats (measure_all P name ts m))
        * of_nat (totalOperations (monitor_stats m) + length ts)
      = averageTime (monitor_stats m) * of_nat (totalOperations (monitor_stats m))
        + of_int (\<Sum>(t0, t1)\<leftarrow>ts. t1 - t0)"
proof (induction ts arbitrary: m)
  case Nil
  then show ?case by simp
next
  case (Cons p ts)
  obtain t0 t1 where p: "p = (t0, t1)" by (cases p)
  let ?m = "snd (measure_once P name t0 t1 m)"
  have avg: "averageTime (monitor_stats ?m) * of_nat (totalOperations (monitor_stats ?m))
      = averageTime (monitor_stats m) * of_nat (totalOperations (monitor_stats m)) + of_int (t1 - t0)"
    by (simp add: measure_once_step del: of_int_diff)
  show ?case
    using Cons.IH [of ?m] avg unfolding p
    by (simp add: measure_once_step(2) algebra_simps)
qed

text \<open>
  Claim C8. For a name that has a start record, \<open>end(name)\<close> returns the measured
  duration \<open>now - startTime\<close>, counts the operation, and sets the average to
  \<open>(avg * (n - 1) + duration) / n\<close> for the new count \<open>n\<close>. Over matched start/end pairs from
  a cleared monitor the average is therefore the mean of the durations, and the durations
  100 ms, 200 ms and 300 ms give an average of exactly 200 ms. (The arithmetic is exact
  here; the source rounds to doubles.)
\<close>

theorem monitor_running_average:
  "(\<forall>r. records m name = Some r \<longrightarrow>
        fst (monitor_end P now name m) = now - startTime r
      \<and> totalOperations (monitor_stats (snd (monitor_end P now name m)))
           = totalOperations (monitor_stats m) + 1
      \<and> averageTime (monitor_stats (snd (monitor_end P now name m)))
           = (averageTime (monitor_stats m) * (of_nat (totalOperations (monitor_stats m) + 1) - 1)
                + of_int (now - startTime r)) / of_nat (totalOperations (monitor_stats m) + 1))
   \<and> (ts \<noteq> [] \<longrightarrow>
        averageTime (monitor_stats (measure_all P name ts monitor_clear))
          = of_int (\<Sum>(t0, t1)\<leftarrow>ts. t1 - t0) / of_nat (length ts))
   \<and> averageTime (monitor_stats
        (measure_all P name [(0, 100), (1000, 1200), (2000, 2300)] monitor_clear)) = 200"
proof -
  have mean: "averageTime (monitor_stats (measure_all P name ts monitor_clear))
          = of_int (\<Sum>(t0, t1)\<leftarrow>ts. t1 - t0) / of_nat (length ts)" if "ts \<noteq> []" for ts
  proof -
    have "averageTime (monitor_stats (measure_all P name ts monitor_clear)) * of_nat (length ts)
        = of_int (\<Sum>(t0, t1)\<leftarrow>ts. t1 - t0)"
      using measure_all_mean [of P name ts monitor_clear] by (simp add: monitor_clear_def)
    moreover have "(of_nat (length ts) :: rat) \<noteq> 0" using that by simp
    ultimately show ?thesis by (simp add: field_simps)
  qed
  have "averageTime (monitor_stats
        (measure_all P name [(0, 100), (1000, 1200), (2000, 2300)] monitor_clear)) = 200"
    using mean [of "[(0, 100), (1000, 1200), (2000, 2300)]"] by simp
  then show ?thesis using mean [of ts] monitor_end_step [of m name _ P now] by blast
qed


theorem monitor_running_average_witness:
  "records (monitor_start demo_platform 1000 ''op'' (JObj []) monitor_clear) ''op'' \<noteq> None
   \<and> fst (monitor_end demo_platform 1250 ''op''
            (monitor_start demo_platform 1000 ''op'' (JObj []) monitor_clear)) = 250
   \<and> averageTime (monitor_stats (snd (monitor_end demo_platform 1250 ''op''
            (monitor_start demo_platform 1000 ''op'' (JObj []) monitor_clear)))) = 250
   \<and> averageTime (monitor_stats
        (measure_all demo_platform ''op'' [(0, 100), (1000, 1200)] monitor_clear)) = 150"
  using monitor_running_average [of "monitor_start demo_platform 1000 ''op'' (JObj []) monitor_clear"
      "''op''" demo_platform 1250 "[(0, 100), (1000, 1200)]"]
  by (simp add: monitor_start_def monitor_clear_def)

section \<open>Properties of the retry loop\<close>

subsection \<open>One attempt\<close>

text \<open>
  For a timeout below \<open>2 ^ 31\<close> ms: an operation that settles before the timeout, or
  without a turn of the event loop, decides the attempt at its latency; one that settles
  later, or never, makes the attempt fail with the timeout error after \<open>timeout\<close> ms.
\<close>

lemma attempt_in_time:
  assumes "t < 2 ^ 31" and "d = 0 \<or> d < t"
  shows "attempt P t (Resolves d v) = (Inr v, d)"
    and "attempt P t (Rejects d r) = (Inl (thrown r), d)"
  using assms by (auto simp: attempt_def setTimeout_delay_def)

lemma attempt_too_late:
  assumes "t < 2 ^ 31" and "0 < d" and "t \<le> d"
  shows "attempt P t (Resolves d v) = (Inl TimeoutError, t)"
    and "attempt P t (Rejects d r) = (Inl TimeoutError, t)"
  using assms by (auto simp: attempt_def setTimeout_delay_def)

lemma attempt_pending:
  "t < 2 ^ 31 \<Longrightarrow> attempt P t Pending = (Inl TimeoutError, t)"
  by (simp add: attempt_def setTimeout_delay_def)

text \<open>
  From \<open>2 ^ 31\<close> ms on the timer does not wait for the timeout: where it fires at once,
  an operation that takes 10 ms times out under a timeout of \<open>2 ^ 31\<close> ms.
\<close>

lemma attempt_overflow_example:
  "attempt demo_platform (2 ^ 31) (Resolves 10 (JStr ''ok'')) = (Inl TimeoutError, 0)"
  by (simp add: attempt_def setTimeout_delay_def demo_platform_def)

lemma attempt_not_TypeError: "fst (attempt P t x) \<noteq> Inl TypeError"
proof (cases x)
  case (Rejects d r)
  then show ?thesis by (cases r) (simp_all add: attempt_def)
qed (simp_all add: attempt_def)

subsection \<open>The loop\<close>

lemma retry_loop_success:
  "i \<le> n \<Longrightarrow> attempt P t (f i) = (Inr v, d) \<Longrightarrow>
   retry_loop P f n t i le = \<lparr>rr_result = Inr v, rr_calls = 1, rr_delays = [], rr_elapsed = d\<rparr>"
  by (subst retry_loop.simps) simp

lemma retry_loop_exit:
  "n < i \<Longrightarrow>
   retry_loop P f n t i le =
     \<lparr>rr_result = Inl (case le of Some e \<Rightarrow> e | None \<Rightarrow> NullishError),
      rr_calls = 0, rr_delays = [], rr_elapsed = 0\<rparr>"
  by (subst retry_loop.simps) simp

lemma retry_loop_nullish:
  "i < n \<Longrightarrow> attempt P t (f i) = (Inl NullishError, d) \<Longrightarrow>
   retry_loop P f n t i le =
     \<lparr>rr_result = Inl TypeError, rr_calls = 1, rr_delays = [], rr_elapsed = d\<rparr>"
  by (subst retry_loop.simps) simp

lemma retry_loop_retry:
  "i < n \<Longrightarrow> attempt P t (f i) = (Inl e, d) \<Longrightarrow> e \<noteq> NullishError \<Longrightarrow>
   retry_loop P f n t i le =
     (retry_loop P f n t (Suc i) (Some e))
       \<lparr>rr_calls := rr_calls (retry_loop P f n t (Suc i) (Some e)) + 1,
        rr_delays := backoff i # rr_delays (retry_loop P f n t (Suc i) (Some e)),
        rr_elapsed := d + backoff i + rr_elapsed (retry_loop P f n t (Suc i) (Some e))\<rparr>"
  by (subst retry_loop.simps) (simp add: Let_def)

lemma retry_loop_last:
  "attempt P t (f n) = (Inl e, d) \<Longrightarrow>
   retry_loop P f n t n le = \<lparr>rr_result = Inl e, rr_calls = 1, rr_delays = [], rr_elapsed = d\<rparr>"
  by (subst retry_loop.simps) (simp add: Let_def retry_loop_exit)

lemma retry_loop_attempts:
  assumes "i \<le> n"
  shows "1 \<le> rr_calls (retry_loop P f n t i le)
     \<and> i + rr_calls (retry_loop P f n t i le) \<le> n + 1
     \<and> rr_delays (retry_loop P f n t i le)
         = map backoff [i ..< i + rr_calls (retry_loop P f n t i le) - 1]
     \<and> rr_result (retry_loop P f n t i le)
         = loop_result n (i + rr_calls (retry_loop P f n t i le) - 1)
             (fst (attempt P t (f (i + rr_calls (retry_loop P f n t i le) - 1))))
     \<and> (\<forall>j. i \<le> j \<and> j < i + rr_calls (retry_loop P f n t i le) - 1
            \<longrightarrow> retried (fst (attempt P t (f j))))
     \<and> (retried (fst (attempt P t (f (i + rr_calls (retry_loop P f n t i le) - 1))))
            \<longrightarrow> i + rr_calls (retry_loop P f n t i le) = n + 1)"
  using assms
proof (induction k \<equiv> "n - i" arbitrary: i le)
  case 0
  then have eq: "i = n" by simp
  obtain res d where rc: "attempt P t (f n) = (res, d)" by (cases "attempt P t (f n)")
  show ?case
  proof (cases res)
    case (Inl e)
    have "retry_loop P f n t n le = \<lparr>rr_result = Inl e, rr_calls = 1, rr_delays = [], rr_elapsed = d\<rparr>"
      using rc Inl by (intro retry_loop_last) simp
    then show ?thesis unfolding eq using rc Inl by (auto simp: loop_result_def)
  next
    case (Inr v)
    have "retry_loop P f n t n le = \<lparr>rr_result = Inr v, rr_calls = 1, rr_delays = [], rr_elapsed = d\<rparr>"
      using rc Inr by (intro retry_loop_success) simp_all
    then show ?thesis unfolding eq using rc Inr by (auto simp: loop_result_def)
  qed
next
  case (Suc k)
  then have lt: "i < n" and k: "k = n - Suc i" and le': "Suc i \<le> n" by simp_all
  obtain res d where rc: "attempt P t (f i) = (res, d)" by (cases "attempt P t (f i)")
  show ?case
  proof (cases "retried res")
    case False
    show ?thesis
    proof (cases res)
      case (Inr v)
      have "retry_loop P f n t i le = \<lparr>rr_result = Inr v, rr_calls = 1, rr_delays = [], rr_elapsed = d\<rparr>"
        using rc Inr Suc.prems by (intro retry_loop_success) simp_all
      then show ?thesis using rc Inr lt by (auto simp: loop_result_def retried_def)
    next
      case (Inl e)
      with False have e: "e = NullishError" by (simp add: retried_def)
      have "retry_loop P f n t i le
          = \<lparr>rr_result = Inl TypeError, rr_calls = 1, rr_delays = [], rr_elapsed = d\<rparr>"
        using rc Inl e lt by (intro retry_loop_nullish) simp_all
      then show ?thesis using rc Inl e lt by (auto simp: loop_result_def retried_def)
    qed
  next
    case True
    then obtain e where Inl: "res = Inl e" and ne: "e \<noteq> NullishError"
      by (cases res) (auto simp: retried_def)
    define r where "r = retry_loop P f n t (Suc i) (Some e)"
    have IH: "1 \<le> rr_calls r" "Suc i + rr_calls r \<le> n + 1"
      "rr_delays r = map backoff [Suc i ..< Suc i + rr_calls r - 1]"
      "rr_result r = loop_result n (Suc i + rr_calls r - 1)
                       (fst (attempt P t (f (Suc i + rr_calls r - 1))))"
      "\<forall>j. Suc i \<le> j \<and> j < Suc i + rr_calls r - 1 \<longrightarrow> retried (fst (attempt P t (f j)))"
      "retried (fst (attempt P t (f (Suc i + rr_calls r - 1)))) \<longrightarrow> Suc i + rr_calls r = n + 1"
      using Suc.hyps(1) [OF k le', of "Some e"] unfolding r_def by blast+
    have unf: "retry_loop P f n t i le
        = r\<lparr>rr_calls := rr_calls r + 1, rr_delays := backoff i # rr_delays r,
             rr_elapsed := d + backoff i + rr_elapsed r\<rparr>"
      unfolding r_def using rc Inl lt ne by (intro retry_loop_retry) simp_all
    have up: "[i ..< i + (rr_calls r + 1) - 1] = i # [Suc i ..< Suc i + rr_calls r - 1]"
      using IH(1) by (simp add: upt_conv_Cons)
    have idx: "i + (rr_calls r + 1) - 1 = Suc i + rr_calls r - 1"
      using IH(1) by simp
    have fail_i: "retried (fst (attempt P t (f i)))" using rc True by simp
    have c1: "1 \<le> rr_calls r + 1" by simp
    have c2: "i + (rr_calls r + 1) \<le> n + 1" using IH(2) by simp
    have c3: "backoff i # rr_delays r = map backoff [i ..< i + (rr_calls r + 1) - 1]"
      unfolding up using IH(3) by simp
    have c4: "rr_result r = loop_result n (i + (rr_calls r + 1) - 1)
                              (fst (attempt P t (f (i + (rr_calls r + 1) - 1))))"
      unfolding idx by (rule IH(4))
    have c5: "\<forall>j. i \<le> j \<and> j < i + (rr_calls r + 1) - 1 \<longrightarrow> retried (fst (attempt P t (f j)))"
    proof (intro allI impI)
      fix j assume j: "i \<le> j \<and> j < i + (rr_calls r + 1) - 1"
      show "retried (fst (attempt P t (f j)))"
      proof (cases "j = i")
        case True
        then show ?thesis using fail_i by simp
      next
        case False
        with j have "Suc i \<le> j \<and> j < Suc i + rr_calls r - 1" unfolding idx by simp
        then show ?thesis using IH(5) by blast
      qed
    qed
    have c6: "retried (fst (attempt P t (f (i + (rr_calls r + 1) - 1))))
                \<longrightarrow> i + (rr_calls r + 1) = n + 1"
      unfolding idx using IH(6) by simp
    show ?thesis
      unfolding unf using c1 c2 c3 c4 c5 c6 by simp
  qed
qed

lemma backoff_values: "backoff 0 = 1000" "backoff (Suc 0) = 2000"
  by (simp_all add: backoff_def)

lemmas executeWithRetry_all =
  retry_loop_attempts [of 0 _ _ _ _ None, OF le0, unfolded add_0, folded executeWithRetry_def]

text \<open>
  \<open>executeWithRetry\<close> calls the operation at least once and at most \<open>retryCount + 1\<close>
  times, sleeps \<open>min (1000 * 2 ^ i) 5000\<close> ms after the failed attempt \<open>i\<close>, goes on after
  exactly the attempts that failed with something other than \<open>null\<close> or \<open>undefined\<close>, and
  ends with the result of its last attempt.
\<close>

lemma executeWithRetry_general:
  "1 \<le> rr_calls (executeWithRetry P f n t)"
  "rr_calls (executeWithRetry P f n t) \<le> n + 1"
  "rr_delays (executeWithRetry P f n t) = map backoff [0 ..< rr_calls (executeWithRetry P f n t) - 1]"
  "rr_result (executeWithRetry P f n t)
     = loop_result n (rr_calls (executeWithRetry P f n t) - 1)
         (fst (attempt P t (f (rr_calls (executeWithRetry P f n t) - 1))))"
  "\<forall>j. j < rr_calls (executeWithRetry P f n t) - 1 \<longrightarrow> retried (fst (attempt P t (f j)))"
  "retried (fst (attempt P t (f (rr_calls (executeWithRetry P f n t) - 1))))
     \<longrightarrow> rr_calls (executeWithRetry P f n t) = n + 1"
  using executeWithRetry_all [where P = P and f = f and n = n and t = t] by blast+

text \<open>
  The loop throws \<open>null\<close> or \<open>undefined\<close> only when its last possible attempt failed with
  it, and a \<open>TypeError\<close> only when an earlier one did.
\<close>

lemma executeWithRetry_nullish:
  "rr_result (executeWithRetry P f n t) = Inl NullishError \<longleftrightarrow>
     rr_calls (executeWithRetry P f n t) = n + 1
     \<and> fst (attempt P t (f n)) = Inl NullishError"
proof -
  define c where "c = rr_calls (executeWithRetry P f n t)"
  note g = executeWithRetry_general [where P = P and f = f and n = n and t = t, folded c_def]
  show ?thesis
    unfolding c_def [symmetric]
  proof
    assume r: "rr_result (executeWithRetry P f n t) = Inl NullishError"
    then have "\<not> c - 1 < n" and a: "fst (attempt P t (f (c - 1))) = Inl NullishError"
      using g(4) by (auto simp: loop_result_def split: if_splits)
    then have "c = n + 1" using g(1,2) by linarith
    with a show "c = n + 1 \<and> fst (attempt P t (f n)) = Inl NullishError" by simp
  next
    assume "c = n + 1 \<and> fst (attempt P t (f n)) = Inl NullishError"
    then show "rr_result (executeWithRetry P f n t) = Inl NullishError"
      using g(4) by (simp add: loop_result_def)
  qed
qed

lemma executeWithRetry_no_nullish:
  assumes "\<forall>j \<le> n. fst (attempt P t (f j)) \<noteq> Inl NullishError"
  shows "rr_result (executeWithRetry P f n t) \<noteq> Inl NullishError"
    and "rr_result (executeWithRetry P f n t) \<noteq> Inl TypeError"
    and "rr_result (executeWithRetry P f n t)
           = fst (attempt P t (f (rr_calls (executeWithRetry P f n t) - 1)))"
    and "isl (rr_result (executeWithRetry P f n t))
           \<longrightarrow> rr_calls (executeWithRetry P f n t) = n + 1"
proof -
  define c where "c = rr_calls (executeWithRetry P f n t)"
  note g = executeWithRetry_general [where P = P and f = f and n = n and t = t, folded c_def]
  have "c - 1 \<le> n" using g(2) by simp
  then have nn: "fst (attempt P t (f (c - 1))) \<noteq> Inl NullishError"
    using assms by blast
  then show eq: "rr_result (executeWithRetry P f n t) = fst (attempt P t (f (c - 1)))"
    using g(4) by (simp add: loop_result_def)
  show "rr_result (executeWithRetry P f n t) \<noteq> Inl NullishError"
    unfolding eq by (rule nn)
  show "rr_result (executeWithRetry P f n t) \<noteq> Inl TypeError"
    unfolding eq by (rule attempt_not_TypeError)
  show "isl (rr_result (executeWithRetry P f n t)) \<longrightarrow> c = n + 1"
    unfolding eq using g(6) nn by (simp add: retried_def)
qed

lemma executeWithRetry_two_failures:
  assumes "retried (fst (attempt P t (f 0)))" "retried (fst (attempt P t (f 1)))"
    and "fst (attempt P t (f 2)) = Inr v"
  shows "rr_result (executeWithRetry P f 3 t) = Inr v"
    and "rr_calls (executeWithRetry P f 3 t) = 3"
    and "rr_delays (executeWithRetry P f 3 t) = [1000, 2000]"
proof -
  define c where "c = rr_calls (executeWithRetry P f 3 t)"
  note g = executeWithRetry_general [where P = P and f = f and n = 3 and t = t, folded c_def]
  have "c \<noteq> 1"
  proof
    assume "c = 1"
    then show False using g(6) assms(1) by simp
  qed
  moreover have "c \<noteq> 2"
  proof
    assume "c = 2"
    then show False using g(6) assms(2) by simp
  qed
  moreover have "c \<noteq> 4"
  proof
    assume "c = 4"
    then have "retried (fst (attempt P t (f 2)))" using g(5) by simp
    with assms(3) show False by (simp add: retried_def)
  qed
  ultimately have c: "c = 3" using g(1,2) by linarith
  show "rr_calls (executeWithRetry P f 3 t) = 3" using c by (simp add: c_def)
  show "rr_result (executeWithRetry P f 3 t) = Inr v"
    using g(4) c assms(3) by (simp add: loop_result_def)
  have "[0 ..< 2] = [0, Suc 0]" by (simp add: upt_conv_Cons)
  then show "rr_delays (executeWithRetry P f 3 t) = [1000, 2000]"
    using g(3) c by (simp add: backoff_values)
qed

text \<open>
  An operation that rejects with \<open>undefined\<close> while a retry is left is called once and
  not again: the loop ends with the \<open>TypeError\<close>, without sleeping.
\<close>

lemma executeWithRetry_nullish_first:
  assumes "0 < n" and "attempt P t (f 0) = (Inl NullishError, d)"
  shows "executeWithRetry P f n t
    = \<lparr>rr_result = Inl TypeError, rr_calls = 1, rr_delays = [], rr_elapsed = d\<rparr>"
  unfolding executeWithRetry_def using assms by (intro retry_loop_nullish)

section \<open>Properties of optimizeAPICall\<close>

subsection \<open>The three ways a call can go\<close>

text \<open>
  A call is rejected by the breaker, answered from the cache, or gets as far as the
  operation; in each case \<open>optimizeAPICall\<close> reduces to the steps of that path.
\<close>

lemma isCircuitBreakerOpen_fst: "fst (isCircuitBreakerOpen apiName w) = breaker_blocks apiName w"
  by (auto simp: isCircuitBreakerOpen_def breaker_blocks_def split: option.splits)

lemma isCircuitBreakerOpen_blocked:
  "breaker_blocks apiName w \<Longrightarrow> isCircuitBreakerOpen apiName w = (True, w)"
  by (auto simp: isCircuitBreakerOpen_def breaker_blocks_def split: option.splits)

lemma isCircuitBreakerOpen_frame:
  "clock (snd (isCircuitBreakerOpen apiName w)) = clock w"
  "cache (snd (isCircuitBreakerOpen apiName w)) = cache w"
  "monitor (snd (isCircuitBreakerOpen apiName w)) = monitor w"
  "apiMetrics (snd (isCircuitBreakerOpen apiName w)) = apiMetrics w"
  by (auto simp: isCircuitBreakerOpen_def split: option.splits)

lemma breaker_blocks_monitor [simp]:
  "breaker_blocks apiName (w\<lparr>monitor := m\<rparr>) = breaker_blocks apiName w"
  by (simp add: breaker_blocks_def split: option.splits)

lemma checked_frame [simp]:
  "clock (checked P apiName opts w) = clock w"
  "cache (checked P apiName opts w) = cache w"
  by (simp_all add: checked_def Let_def isCircuitBreakerOpen_frame)

lemma optimizeAPICall_blocked:
  assumes "circuitBreakerEnabled opts" "breaker_blocks apiName w"
  shows "optimizeAPICall P apiName f opts w =
     catch_block P apiName opts (clock w) (CircuitOpenError apiName) 0 []
       (w\<lparr>monitor := monitor_start P (clock w) (''api_'' @ apiName) (JObj []) (monitor w)\<rparr>)"
  using assms by (simp add: optimizeAPICall_def Let_def isCircuitBreakerOpen_blocked)

lemma optimizeAPICall_cached:
  assumes "\<not> (circuitBreakerEnabled opts \<and> breaker_blocks apiName w)"
    and "cacheEnabled opts" "cache_hit P apiName w"
  shows "optimizeAPICall P apiName f opts w =
     (\<lparr>result = Inr (fst (get P (clock w) (''api_'' @ apiName) (cache w))), op_calls = 0, delays = []\<rparr>,
      (checked P apiName opts w)\<lparr>cache := snd (get P (clock w) (''api_'' @ apiName) (cache w))\<rparr>)"
proof (cases "circuitBreakerEnabled opts")
  case True
  let ?w1 = "w\<lparr>monitor := monitor_start P (clock w) (''api_'' @ apiName) (JObj []) (monitor w)\<rparr>"
  obtain w2 where w2: "isCircuitBreakerOpen apiName ?w1 = (False, w2)"
    using assms(1) True isCircuitBreakerOpen_fst [of apiName ?w1]
    by (cases "isCircuitBreakerOpen apiName ?w1") auto
  have fr: "clock w2 = clock w" "cache w2 = cache w"
    using isCircuitBreakerOpen_frame(1,2) [of apiName ?w1] w2 by simp_all
  show ?thesis
    using assms True w2 fr
    by (simp add: optimizeAPICall_def checked_def Let_def cache_hit_def split_beta)
next
  case False
  then show ?thesis
    using assms
    by (simp add: optimizeAPICall_def checked_def Let_def cache_hit_def split_beta)
qed

lemma optimizeAPICall_executes:
  assumes "reaches_operation P apiName opts w"
  shows "optimizeAPICall P apiName f opts w =
     (let r = executeWithRetry P f (retryCount opts) (timeout opts);
          w3 = (if cacheEnabled opts
                then (checked P apiName opts w)
                       \<lparr>cache := snd (get P (clock w) (''api_'' @ apiName) (cache w))\<rparr>
                else checked P apiName opts w);
          w4 = pass_time P (rr_elapsed r) w3
      in case rr_result r of
           Inl e \<Rightarrow> catch_block P apiName opts (clock w) e (rr_calls r) (rr_delays r) w4
         | Inr v \<Rightarrow> (\<lparr>result = Inr v, op_calls = rr_calls r, delays = rr_delays r\<rparr>,
                      on_success P apiName opts (clock w) v w4))"
proof -
  let ?w1 = "w\<lparr>monitor := monitor_start P (clock w) (''api_'' @ apiName) (JObj []) (monitor w)\<rparr>"
  have nb: "\<not> (circuitBreakerEnabled opts \<and> breaker_blocks apiName w)"
    and nc: "\<not> (cacheEnabled opts \<and> cache_hit P apiName w)"
    using assms by (simp_all add: reaches_operation_def)
  show ?thesis
  proof (cases "circuitBreakerEnabled opts")
    case True
    obtain w2 where w2: "isCircuitBreakerOpen apiName ?w1 = (False, w2)"
      using nb True isCircuitBreakerOpen_fst [of apiName ?w1]
      by (cases "isCircuitBreakerOpen apiName ?w1") auto
    have fr: "clock w2 = clock w" "cache w2 = cache w"
      using isCircuitBreakerOpen_frame(1,2) [of apiName ?w1] w2 by simp_all
    have ck: "checked P apiName opts w = w2"
      using True w2 by (simp add: checked_def Let_def)
    show ?thesis
      using nc True w2 fr unfolding ck
      by (cases "cacheEnabled opts")
         (simp_all add: optimizeAPICall_def on_success_def Let_def cache_hit_def split_beta
            split: sum.splits)
  next
    case False
    have ck: "checked P apiName opts w = ?w1"
      using False by (simp add: checked_def Let_def)
    show ?thesis
      using nc False unfolding ck
      by (cases "cacheEnabled opts")
         (simp_all add: optimizeAPICall_def on_success_def Let_def cache_hit_def split_beta
            split: sum.splits)
  qed
qed


subsection \<open>What each step leaves alone\<close>

lemma monitor_end_sys_frame [simp]:
  "clock (monitor_end_sys P n w) = clock w"
  "cache (monitor_end_sys P n w) = cache w"
  "circuitBreaker (monitor_end_sys P n w) = circuitBreaker w"
  "apiMetrics (monitor_end_sys P n w) = apiMetrics w"
  by (simp_all add: monitor_end_sys_def)

lemma recordAPIMetrics_frame [simp]:
  "clock (recordAPIMetrics n m w) = clock w"
  "cache (recordAPIMetrics n m w) = cache w"
  "circuitBreaker (recordAPIMetrics n m w) = circuitBreaker w"
  "monitor (recordAPIMetrics n m w) = monitor w"
  by (simp_all add: recordAPIMetrics_def Let_def)

lemma updateCircuitBreaker_frame [simp]:
  "clock (updateCircuitBreaker n w) = clock w"
  "cache (updateCircuitBreaker n w) = cache w"
  "n' \<noteq> n \<Longrightarrow> circuitBreaker (updateCircuitBreaker n w) n' = circuitBreaker w n'"
  by (simp_all add: updateCircuitBreaker_def Let_def)

lemma resetCircuitBreaker_frame [simp]:
  "clock (resetCircuitBreaker n w) = clock w"
  "cache (resetCircuitBreaker n w) = cache w"
  "n' \<noteq> n \<Longrightarrow> circuitBreaker (resetCircuitBreaker n w) n' = circuitBreaker w n'"
  by (simp_all add: resetCircuitBreaker_def split: option.splits)

lemma pass_time_frame [simp]:
  "clock (pass_time P d w) = clock w + int d"
  "circuitBreaker (pass_time P d w) = circuitBreaker w"
  by (simp_all add: pass_time_def)

lemma updateCircuitBreaker_breaker:
  "circuitBreaker (updateCircuitBreaker n w) n = Some (breaker_of n (updateCircuitBreaker n w))"
  "failureCount (breaker_of n (updateCircuitBreaker n w)) = failureCount (breaker_of n w) + 1"
  "lastFailTime (breaker_of n (updateCircuitBreaker n w)) = clock w"
  "threshold (breaker_of n (updateCircuitBreaker n w)) = threshold (breaker_of n w)"
  "cooldownTime (breaker_of n (updateCircuitBreaker n w)) = cooldownTime (breaker_of n w)"
  "state (breaker_of n (updateCircuitBreaker n w))
     = (if threshold (breaker_of n w) \<le> failureCount (breaker_of n w) + 1 then Open
        else state (breaker_of n w))"
  by (simp_all add: updateCircuitBreaker_def breaker_of_def Let_def)

lemma resetCircuitBreaker_breaker:
  "circuitBreaker (resetCircuitBreaker n w) n
     = map_option (\<lambda>b. b\<lparr>failureCount := 0, state := Closed\<rparr>) (circuitBreaker w n)"
  by (simp add: resetCircuitBreaker_def split: option.splits)

lemma checked_breaker:
  "circuitBreaker (checked P n opts w) n
     = (if circuitBreakerEnabled opts
        then map_option (\<lambda>b. if state b = Open \<and> clock w - lastFailTime b > cooldownTime b
                              then b\<lparr>state := HalfOpen\<rparr> else b) (circuitBreaker w n)
        else circuitBreaker w n)"
  by (simp add: checked_def isCircuitBreakerOpen_def Let_def split: option.splits)

lemma catch_block_result:
  "e \<noteq> NullishError \<Longrightarrow>
   fst (catch_block P n opts t0 e calls slept w) = \<lparr>result = Inl e, op_calls = calls, delays = slept\<rparr>"
  by (simp add: catch_block_def Let_def)

lemma catch_block_nullish:
  "catch_block P n opts t0 NullishError calls slept w
     = (\<lparr>result = Inl TypeError, op_calls = calls, delays = slept\<rparr>,
        monitor_end_sys P (''api_'' @ n) w)"
  by (simp add: catch_block_def Let_def)

lemma catch_block_state:
  "e \<noteq> NullishError \<Longrightarrow>
   snd (catch_block P n opts t0 e calls slept w)
     = (let w2 = recordAPIMetrics n \<lparr>responseTime = clock w - t0, success = False,
                   metric_error = Some e, metric_timestamp = 0\<rparr> (monitor_end_sys P (''api_'' @ n) w)
        in if circuitBreakerEnabled opts then updateCircuitBreaker n w2 else w2)"
  by (simp add: catch_block_def Let_def)

lemma catch_block_frame:
  "clock (snd (catch_block P n opts t0 e calls slept w)) = clock w"
  "cache (snd (catch_block P n opts t0 e calls slept w)) = cache w"
  by (simp_all add: catch_block_def Let_def)

lemma breaker_of_frame [simp]:
  "breaker_of n (monitor_end_sys P k w) = breaker_of n w"
  "breaker_of n (recordAPIMetrics k m w) = breaker_of n w"
  "breaker_of n (pass_time P d w) = breaker_of n w"
  "breaker_of n (w\<lparr>cache := c\<rparr>) = breaker_of n w"
  "breaker_of n (w\<lparr>monitor := mo\<rparr>) = breaker_of n w"
  by (simp_all add: breaker_of_def)

lemma breaker_blocks_of:
  "breaker_blocks n w \<longleftrightarrow>
     circuitBreaker w n \<noteq> None \<and> state (breaker_of n w) = Open
     \<and> clock w - lastFailTime (breaker_of n w) \<le> cooldownTime (breaker_of n w)"
  by (simp add: breaker_blocks_def breaker_of_def split: option.splits)

lemma checked_breaker_of:
  "failureCount (breaker_of n (checked P n opts w)) = failureCount (breaker_of n w)"
  "lastFailTime (breaker_of n (checked P n opts w)) = lastFailTime (breaker_of n w)"
  "threshold (breaker_of n (checked P n opts w)) = threshold (breaker_of n w)"
  "cooldownTime (breaker_of n (checked P n opts w)) = cooldownTime (breaker_of n w)"
  by (simp_all add: breaker_of_def checked_breaker split: option.splits)

lemma attempt_not_circuit: "fst (attempt P t x) \<noteq> Inl (CircuitOpenError n)"
proof (cases x)
  case (Rejects d r)
  then show ?thesis by (cases r) (simp_all add: attempt_def)
qed (simp_all add: attempt_def)

lemma on_success_breaker:
  "circuitBreaker (on_success P n opts t0 v w) n
     = map_option (\<lambda>b. b\<lparr>failureCount := 0, state := Closed\<rparr>) (circuitBreaker w n)"
  by (simp add: on_success_def Let_def resetCircuitBreaker_breaker)

lemma on_success_clock: "clock (on_success P n opts t0 v w) = clock w"
  by (simp add: on_success_def Let_def)

subsection \<open>Rejected and failed calls\<close>

lemma call_rejected:
  assumes "circuitBreakerEnabled opts" "breaker_blocks n w"
  shows "fst (optimizeAPICall P n f opts w)
           = \<lparr>result = Inl (CircuitOpenError n), op_calls = 0, delays = []\<rparr>"
    and "clock (snd (optimizeAPICall P n f opts w)) = clock w"
    and "cache (snd (optimizeAPICall P n f opts w)) = cache w"
    and "circuitBreaker (snd (optimizeAPICall P n f opts w)) n
           = Some ((breaker_of n w)\<lparr>failureCount := failureCount (breaker_of n w) + 1,
                                      lastFailTime := clock w\<rparr>)"
proof -
  note eq = optimizeAPICall_blocked [OF assms, of P f]
  show "fst (optimizeAPICall P n f opts w)
           = \<lparr>result = Inl (CircuitOpenError n), op_calls = 0, delays = []\<rparr>"
    by (simp add: eq catch_block_result)
  show "clock (snd (optimizeAPICall P n f opts w)) = clock w"
    by (simp add: eq catch_block_frame)
  show "cache (snd (optimizeAPICall P n f opts w)) = cache w"
    by (simp add: eq catch_block_frame)
  have op: "state (breaker_of n w) = Open" using assms(2) by (simp add: breaker_blocks_of)
  show "circuitBreaker (snd (optimizeAPICall P n f opts w)) n
           = Some ((breaker_of n w)\<lparr>failureCount := failureCount (breaker_of n w) + 1,
                                      lastFailTime := clock w\<rparr>)"
    using assms(1) op
    by (simp add: eq catch_block_state Let_def updateCircuitBreaker_def breaker_of_def
        monitor_end_sys_def recordAPIMetrics_def split: option.splits)
qed

text \<open>
  A call that fails with anything but a \<open>TypeError\<close> has counted a failure on the
  breaker and set its last failure time to the time of the failure.
\<close>

lemma call_failure_updates:
  assumes "circuitBreakerEnabled opts"
    and "isl (result (fst (optimizeAPICall P n f opts w)))"
    and "result (fst (optimizeAPICall P n f opts w)) \<noteq> Inl TypeError"
  shows "circuitBreaker (snd (optimizeAPICall P n f opts w)) n
           = Some (breaker_of n (snd (optimizeAPICall P n f opts w)))"
    and "failureCount (breaker_of n (snd (optimizeAPICall P n f opts w)))
           = failureCount (breaker_of n w) + 1"
    and "lastFailTime (breaker_of n (snd (optimizeAPICall P n f opts w)))
           = clock (snd (optimizeAPICall P n f opts w))"
    and "threshold (breaker_of n (snd (optimizeAPICall P n f opts w))) = threshold (breaker_of n w)"
    and "cooldownTime (breaker_of n (snd (optimizeAPICall P n f opts w)))
           = cooldownTime (breaker_of n w)"
    and "threshold (breaker_of n w) \<le> failureCount (breaker_of n w) + 1
           \<Longrightarrow> state (breaker_of n (snd (optimizeAPICall P n f opts w))) = Open"
proof -
  let ?res = "optimizeAPICall P n f opts w"
  have "\<exists>e t0 calls slept w0. e \<noteq> NullishError
          \<and> ?res = catch_block P n opts t0 e calls slept w0
          \<and> failureCount (breaker_of n w0) = failureCount (breaker_of n w)
          \<and> threshold (breaker_of n w0) = threshold (breaker_of n w)
          \<and> cooldownTime (breaker_of n w0) = cooldownTime (breaker_of n w)"
  proof (cases "breaker_blocks n w")
    case True
    let ?w1 = "w\<lparr>monitor := monitor_start P (clock w) (''api_'' @ n) (JObj []) (monitor w)\<rparr>"
    have "CircuitOpenError n \<noteq> NullishError
        \<and> ?res = catch_block P n opts (clock w) (CircuitOpenError n) 0 [] ?w1
        \<and> failureCount (breaker_of n ?w1) = failureCount (breaker_of n w)
        \<and> threshold (breaker_of n ?w1) = threshold (breaker_of n w)
        \<and> cooldownTime (breaker_of n ?w1) = cooldownTime (breaker_of n w)"
      using optimizeAPICall_blocked [OF assms(1) True, of P f] by simp
    then show ?thesis by blast
  next
    case nb: False
    show ?thesis
    proof (cases "cacheEnabled opts \<and> cache_hit P n w")
      case True
      then have "\<not> isl (result (fst ?res))"
        using optimizeAPICall_cached [of opts n w P f] nb by simp
      with assms(2) show ?thesis by simp
    next
      case False
      then have ro: "reaches_operation P n opts w"
        using nb by (simp add: reaches_operation_def)
      let ?r = "executeWithRetry P f (retryCount opts) (timeout opts)"
      obtain e where e: "rr_result ?r = Inl e"
        using assms(2) optimizeAPICall_executes [OF ro, of f]
        by (cases "rr_result ?r") (simp_all add: Let_def)
      have ne: "e \<noteq> NullishError"
      proof
        assume "e = NullishError"
        then have "result (fst ?res) = Inl TypeError"
          using optimizeAPICall_executes [OF ro, of f] e
          by (simp add: Let_def catch_block_nullish)
        with assms(3) show False by simp
      qed
      let ?w4 = "pass_time P (rr_elapsed ?r)
          (if cacheEnabled opts
           then (checked P n opts w)\<lparr>cache := snd (get P (clock w) (''api_'' @ n) (cache w))\<rparr>
           else checked P n opts w)"
      have "e \<noteq> NullishError
        \<and> ?res = catch_block P n opts (clock w) e (rr_calls ?r) (rr_delays ?r) ?w4
        \<and> failureCount (breaker_of n ?w4) = failureCount (breaker_of n w)
        \<and> threshold (breaker_of n ?w4) = threshold (breaker_of n w)
        \<and> cooldownTime (breaker_of n ?w4) = cooldownTime (breaker_of n w)"
        using optimizeAPICall_executes [OF ro, of f] e ne
        by (simp add: Let_def checked_breaker_of)
      then show ?thesis by blast
    qed
  qed
  then obtain e t0 calls slept w0 where ne: "e \<noteq> NullishError"
    and eq: "?res = catch_block P n opts t0 e calls slept w0"
    and fr: "failureCount (breaker_of n w0) = failureCount (breaker_of n w)"
      "threshold (breaker_of n w0) = threshold (breaker_of n w)"
      "cooldownTime (breaker_of n w0) = cooldownTime (breaker_of n w)"
    by blast
  have st: "snd ?res = updateCircuitBreaker n
      (recordAPIMetrics n \<lparr>responseTime = clock w0 - t0, success = False,
                   metric_error = Some e, metric_timestamp = 0\<rparr> (monitor_end_sys P (''api_'' @ n) w0))"
    using assms(1) ne by (simp add: eq catch_block_state Let_def)
  show "circuitBreaker (snd ?res) n = Some (breaker_of n (snd ?res))"
    unfolding st by (rule updateCircuitBreaker_breaker)
  show "failureCount (breaker_of n (snd ?res)) = failureCount (breaker_of n w) + 1"
    unfolding st by (simp add: updateCircuitBreaker_breaker fr)
  show "lastFailTime (breaker_of n (snd ?res)) = clock (snd ?res)"
    unfolding st by (simp add: updateCircuitBreaker_breaker)
  show "threshold (breaker_of n (snd ?res)) = threshold (breaker_of n w)"
    unfolding st by (simp add: updateCircuitBreaker_breaker fr)
  show "cooldownTime (breaker_of n (snd ?res)) = cooldownTime (breaker_of n w)"
    unfolding st by (simp add: updateCircuitBreaker_breaker fr)
  show "state (breaker_of n (snd ?res)) = Open"
    if "threshold (breaker_of n w) \<le> failureCount (breaker_of n w) + 1"
    unfolding st using that by (simp add: updateCircuitBreaker_breaker fr)
qed

subsection \<open>Sequences of calls\<close>

lemma run_Cons:
  "fst (run P ((gap, n, f, opts) # cs) w)
     = fst (optimizeAPICall P n f opts (pass_time P gap w))
       # fst (run P cs (snd (optimizeAPICall P n f opts (pass_time P gap w))))"
  "snd (run P ((gap, n, f, opts) # cs) w)
     = snd (run P cs (snd (optimizeAPICall P n f opts (pass_time P gap w))))"
  by (simp_all add: split_beta Let_def)

lemma length_run: "length (fst (run P cs w)) = length cs"
proof (induction cs arbitrary: w)
  case Nil
  then show ?case by simp
next
  case (Cons c cs)
  obtain gap n f opts where c: "c = (gap, n, f, opts)" by (cases c)
  show ?case unfolding c run_Cons using Cons.IH by simp
qed

lemma call_executes_result:
  assumes "reaches_operation P n opts w"
  shows "fst (optimizeAPICall P n f opts w)
     = \<lparr>result = rethrown (rr_result (executeWithRetry P f (retryCount opts) (timeout opts))),
        op_calls = rr_calls (executeWithRetry P f (retryCount opts) (timeout opts)),
        delays = rr_delays (executeWithRetry P f (retryCount opts) (timeout opts))\<rparr>"
proof (cases "rr_result (executeWithRetry P f (retryCount opts) (timeout opts))")
  case (Inl e)
  show ?thesis
  proof (cases "e = NullishError")
    case True
    then show ?thesis
      by (simp add: optimizeAPICall_executes [OF assms] Inl Let_def catch_block_nullish
          rethrown_def)
  next
    case False
    then show ?thesis
      by (simp add: optimizeAPICall_executes [OF assms] Inl Let_def catch_block_result
          rethrown_def)
  qed
next
  case (Inr v)
  show ?thesis
    by (simp add: optimizeAPICall_executes [OF assms] Inr Let_def rethrown_def)
qed

lemma executed_state:
  assumes "reaches_operation P n opts w"
  shows "snd (optimizeAPICall P n f opts w)
     = (let r = executeWithRetry P f (retryCount opts) (timeout opts);
            w4 = pass_time P (rr_elapsed r)
                   (if cacheEnabled opts
                    then (checked P n opts w)\<lparr>cache := snd (get P (clock w) (''api_'' @ n) (cache w))\<rparr>
                    else checked P n opts w)
        in case rr_result r of
             Inl e \<Rightarrow> snd (catch_block P n opts (clock w) e (rr_calls r) (rr_delays r) w4)
           | Inr v \<Rightarrow> on_success P n opts (clock w) v w4)"
  by (simp add: optimizeAPICall_executes [OF assms] Let_def split: sum.splits)

lemma executed_clock:
  assumes "reaches_operation P n opts w"
  shows "clock (snd (optimizeAPICall P n f opts w))
           = clock w + int (rr_elapsed (executeWithRetry P f (retryCount opts) (timeout opts)))"
  by (simp add: executed_state [OF assms] Let_def catch_block_frame on_success_clock
      split: sum.splits)

text \<open>
  A call whose retry loop ends with \<open>null\<close> or \<open>undefined\<close> rejects with the \<open>TypeError\<close>
  and leaves the breaker and the metrics as they were after the breaker check.
\<close>

lemma call_nullish:
  assumes "reaches_operation P n opts w"
    and "rr_result (executeWithRetry P f (retryCount opts) (timeout opts)) = Inl NullishError"
  shows "result (fst (optimizeAPICall P n f opts w)) = Inl TypeError"
    and "circuitBreaker (snd (optimizeAPICall P n f opts w)) = circuitBreaker (checked P n opts w)"
    and "apiMetrics (snd (optimizeAPICall P n f opts w)) = apiMetrics (checked P n opts w)"
proof -
  show "result (fst (optimizeAPICall P n f opts w)) = Inl TypeError"
    by (simp add: call_executes_result [OF assms(1)] assms(2) rethrown_def)
  show "circuitBreaker (snd (optimizeAPICall P n f opts w)) = circuitBreaker (checked P n opts w)"
    by (simp add: executed_state [OF assms(1)] assms(2) Let_def catch_block_nullish)
  show "apiMetrics (snd (optimizeAPICall P n f opts w)) = apiMetrics (checked P n opts w)"
    by (simp add: executed_state [OF assms(1)] assms(2) Let_def catch_block_nullish pass_time_def)
qed

lemma failing_call:
  assumes "\<forall>i. retried (fst (attempt P (timeout opts) (f i)))"
    and "\<not> (cacheEnabled opts \<and> cache_hit P n w)"
  shows "isl (result (fst (optimizeAPICall P n f opts w)))
     \<and> result (fst (optimizeAPICall P n f opts w)) \<noteq> Inl TypeError"
proof (cases "circuitBreakerEnabled opts \<and> breaker_blocks n w")
  case True
  then show ?thesis by (simp add: call_rejected(1))
next
  case False
  then have ro: "reaches_operation P n opts w"
    using assms(2) by (simp add: reaches_operation_def)
  let ?r = "executeWithRetry P f (retryCount opts) (timeout opts)"
  have nn: "\<forall>j \<le> retryCount opts. fst (attempt P (timeout opts) (f j)) \<noteq> Inl NullishError"
    using assms(1) by (simp add: retried_def)
  note g = executeWithRetry_no_nullish [OF nn]
  have "isl (rr_result ?r)"
    unfolding g(3) using assms(1) by (simp add: retried_def)
  then show ?thesis
    using g(1,2) by (simp add: call_executes_result [OF ro] rethrown_def)
qed

lemma run_failing_calls:
  assumes "\<forall>c\<in>set cs. \<not> cacheEnabled (snd (snd (snd c)))
             \<and> (\<forall>i. retried (fst (attempt P (timeout (snd (snd (snd c)))) (fst (snd (snd c)) i))))"
  shows "\<forall>r\<in>set (fst (run P cs w)). isl (result r) \<and> result r \<noteq> Inl TypeError"
  using assms
proof (induction cs arbitrary: w)
  case Nil
  then show ?case by simp
next
  case (Cons c cs)
  obtain gap n f opts where c: "c = (gap, n, f, opts)" by (cases c)
  have 1: "isl (result (fst (optimizeAPICall P n f opts (pass_time P gap w))))
      \<and> result (fst (optimizeAPICall P n f opts (pass_time P gap w))) \<noteq> Inl TypeError"
    using Cons.prems unfolding c by (intro failing_call) simp_all
  have 2: "\<forall>r\<in>set (fst (run P cs (snd (optimizeAPICall P n f opts (pass_time P gap w))))).
             isl (result r) \<and> result r \<noteq> Inl TypeError"
    using Cons.prems by (intro Cons.IH) simp
  show ?case unfolding c run_Cons using 1 2 by simp
qed

lemma run_failures:
  assumes "\<forall>c\<in>set cs. fst (snd c) = n \<and> circuitBreakerEnabled (snd (snd (snd c)))"
    and "\<forall>r\<in>set (fst (run P cs w)). isl (result r) \<and> result r \<noteq> Inl TypeError"
    and "cs \<noteq> []"
  shows "circuitBreaker (snd (run P cs w)) n = Some (breaker_of n (snd (run P cs w)))
     \<and> failureCount (breaker_of n (snd (run P cs w))) = failureCount (breaker_of n w) + length cs
     \<and> lastFailTime (breaker_of n (snd (run P cs w))) = clock (snd (run P cs w))
     \<and> threshold (breaker_of n (snd (run P cs w))) = threshold (breaker_of n w)
     \<and> cooldownTime (breaker_of n (snd (run P cs w))) = cooldownTime (breaker_of n w)
     \<and> (threshold (breaker_of n w) \<le> failureCount (breaker_of n w) + length cs
          \<longrightarrow> state (breaker_of n (snd (run P cs w))) = Open)"
  using assms
proof (induction cs arbitrary: w)
  case Nil
  then show ?case by simp
next
  case (Cons c cs)
  obtain gap n' f opts where c: "c = (gap, n', f, opts)" by (cases c)
  have n': "n' = n" and en: "circuitBreakerEnabled opts"
    using Cons.prems(1) unfolding c by simp_all
  let ?w0 = "pass_time P gap w"
  let ?w1 = "snd (optimizeAPICall P n f opts ?w0)"
  have fail: "isl (result (fst (optimizeAPICall P n f opts ?w0)))"
    and nt: "result (fst (optimizeAPICall P n f opts ?w0)) \<noteq> Inl TypeError"
    using Cons.prems(2) unfolding c n' run_Cons by simp_all
  note st = call_failure_updates [OF en fail nt]
  have b0: "breaker_of n ?w0 = breaker_of n w" by simp
  show ?case
  proof (cases "cs = []")
    case True
    show ?thesis
      unfolding c n' run_Cons True using st by (simp add: b0)
  next
    case False
    have rest: "\<forall>r\<in>set (fst (run P cs ?w1)). isl (result r) \<and> result r \<noteq> Inl TypeError"
      using Cons.prems(2) unfolding c n' run_Cons by simp
    have cs: "\<forall>c\<in>set cs. fst (snd c) = n \<and> circuitBreakerEnabled (snd (snd (snd c)))"
      using Cons.prems(1) by simp
    note IH = Cons.IH [OF cs rest False]
    show ?thesis
      unfolding c n' run_Cons using IH st(2,4,5) by (simp add: b0)
  qed
qed

text \<open>
  With the default threshold of 5 and cooldown of 60000 ms: after five consecutive calls
  for a name (each with the breaker enabled) that failed with an error other than a
  \<open>TypeError\<close>, the next call for that name, made at most 60000 ms after the fifth
  failure, fails with the circuit-open error without calling the operation, whatever the
  operation would have done.
\<close>

lemma five_failures_trip_breaker:
  assumes "threshold (breaker_of n w) = 5"
    and "cooldownTime (breaker_of n w) = 60000"
    and "length cs = 5"
    and "\<forall>c\<in>set cs. fst (snd c) = n \<and> circuitBreakerEnabled (snd (snd (snd c)))"
    and "\<forall>r\<in>set (fst (run P cs w)). isl (result r) \<and> result r \<noteq> Inl TypeError"
    and "gap \<le> 60000"
    and "circuitBreakerEnabled opts"
  shows "fst (optimizeAPICall P n f opts (pass_time P gap (snd (run P cs w))))
           = \<lparr>result = Inl (CircuitOpenError n), op_calls = 0, delays = []\<rparr>"
proof -
  let ?w5 = "snd (run P cs w)"
  have ne: "cs \<noteq> []" using assms(3) by auto
  note R = run_failures [OF assms(4,5) ne]
  have some: "circuitBreaker ?w5 n \<noteq> None" using R by simp
  have op: "state (breaker_of n ?w5) = Open" using R assms(1,3) by simp
  have lf: "lastFailTime (breaker_of n ?w5) = clock ?w5" using R by blast
  have cd: "cooldownTime (breaker_of n ?w5) = 60000" using R assms(2) by simp
  have "breaker_blocks n (pass_time P gap ?w5)"
    unfolding breaker_blocks_of using some op lf cd assms(6) by simp
  then show ?thesis using assms(7) by (rule call_rejected(1) [rotated])
qed

lemma five_failures_trip_breaker_example:
  "fst (optimizeAPICall demo_platform ''X'' working_api default_options
        (pass_time demo_platform 60000
           (snd (run demo_platform (replicate 5 (1000, ''X'', failing_api, no_cache_options))
                   fresh_system))))
       = \<lparr>result = Inl (CircuitOpenError ''X''), op_calls = 0, delays = []\<rparr>"
proof -
  let ?cs = "replicate 5 (1000, ''X'', failing_api, no_cache_options)"
  have h1: "threshold (breaker_of ''X'' fresh_system) = 5"
    by (simp add: breaker_of_def fresh_system_def new_breaker_def)
  have h2: "cooldownTime (breaker_of ''X'' fresh_system) = 60000"
    by (simp add: breaker_of_def fresh_system_def new_breaker_def)
  have h3: "length ?cs = 5" by simp
  have h4: "\<forall>c\<in>set ?cs. fst (snd c) = ''X'' \<and> circuitBreakerEnabled (snd (snd (snd c)))"
    by (simp add: no_cache_options_def default_options_def)
  have h5: "\<forall>r\<in>set (fst (run demo_platform ?cs fresh_system)).
              isl (result r) \<and> result r \<noteq> Inl TypeError"
    by (rule run_failing_calls)
       (simp add: no_cache_options_def default_options_def retried_def attempt_def
          setTimeout_delay_def)
  have h6: "(60000::nat) \<le> 60000" by simp
  have h7: "circuitBreakerEnabled default_options" by (simp add: default_options_def)
  show ?thesis
    by (rule five_failures_trip_breaker [OF h1 h2 h3 h4 h5 h6 h7])
qed

text \<open>
  Calls that fail because the operation rejects with \<open>null\<close> or \<open>undefined\<close> on its last
  attempt do not count: while the name has no breaker, they create none.
\<close>

lemma run_nullish_calls:
  assumes "circuitBreaker w n = None"
    and "\<forall>c\<in>set cs. fst (snd c) = n \<and> \<not> cacheEnabled (snd (snd (snd c)))
           \<and> rr_result (executeWithRetry P (fst (snd (snd c))) (retryCount (snd (snd (snd c))))
                          (timeout (snd (snd (snd c))))) = Inl NullishError"
  shows "circuitBreaker (snd (run P cs w)) n = None
     \<and> (\<forall>r\<in>set (fst (run P cs w)). result r = Inl TypeError)"
  using assms
proof (induction cs arbitrary: w)
  case Nil
  then show ?case by simp
next
  case (Cons c cs)
  obtain gap n' f opts where c: "c = (gap, n', f, opts)" by (cases c)
  have n': "n' = n" and nc: "\<not> cacheEnabled opts"
    and nl: "rr_result (executeWithRetry P f (retryCount opts) (timeout opts)) = Inl NullishError"
    using Cons.prems(2) unfolding c by simp_all
  let ?w0 = "pass_time P gap w"
  let ?w1 = "snd (optimizeAPICall P n f opts ?w0)"
  have none: "circuitBreaker ?w0 n = None" using Cons.prems(1) by simp
  have ro: "reaches_operation P n opts ?w0"
    using none nc by (simp add: reaches_operation_def breaker_blocks_def)
  note cn = call_nullish [OF ro nl]
  have 1: "circuitBreaker ?w1 n = None"
    using none by (simp add: cn(2) checked_breaker)
  have rest: "\<forall>c\<in>set cs. fst (snd c) = n \<and> \<not> cacheEnabled (snd (snd (snd c)))
           \<and> rr_result (executeWithRetry P (fst (snd (snd c))) (retryCount (snd (snd (snd c))))
                          (timeout (snd (snd (snd c))))) = Inl NullishError"
    using Cons.prems(2) by simp
  note IH = Cons.IH [OF 1 rest]
  show ?case
    unfolding c n' run_Cons using IH cn(1) by simp
qed

lemma undefined_api_once:
  "executeWithRetry demo_platform undefined_api 0 5000
     = \<lparr>rr_result = Inl NullishError, rr_calls = 1, rr_delays = [], rr_elapsed = 10\<rparr>"
  unfolding executeWithRetry_def
  by (rule retry_loop_last) (simp add: attempt_def setTimeout_delay_def)

lemma working_api_once:
  "executeWithRetry demo_platform working_api k 5000
     = \<lparr>rr_result = Inr (JStr ''ok''), rr_calls = 1, rr_delays = [], rr_elapsed = 10\<rparr>"
  unfolding executeWithRetry_def
  by (rule retry_loop_success) (simp_all add: attempt_def setTimeout_delay_def)

text \<open>
  Claim C2, refuted by a run of the code. Five consecutive calls for the name \<open>X\<close>, with
  the breaker enabled and no retries, of an operation that rejects with \<open>undefined\<close>:
  each of the five calls the operation once and fails (with the \<open>TypeError\<close> that reading
  \<open>error.message\<close> raises in the \<open>catch\<close> block, line 513, before the breaker is
  updated). After them the name has no breaker at all, and the sixth call, made 1000 ms
  after the fifth failure, is not rejected: it calls the operation and returns its
  result.
\<close>

theorem undefined_failures_do_not_trip_breaker:
  "map result (fst (run demo_platform
                      (replicate 5 (1000, ''X'', undefined_api, no_retry_options)) fresh_system))
     = replicate 5 (Inl TypeError)
   \<and> map op_calls (fst (run demo_platform
                      (replicate 5 (1000, ''X'', undefined_api, no_retry_options)) fresh_system))
     = replicate 5 1
   \<and> circuitBreaker (snd (run demo_platform
                      (replicate 5 (1000, ''X'', undefined_api, no_retry_options)) fresh_system)) ''X''
     = None
   \<and> fst (optimizeAPICall demo_platform ''X'' working_api no_cache_options
        (pass_time demo_platform 1000
           (snd (run demo_platform
                   (replicate 5 (1000, ''X'', undefined_api, no_retry_options)) fresh_system))))
     = \<lparr>result = Inr (JStr ''ok''), op_calls = 1, delays = []\<rparr>"
proof -
  let ?cs = "replicate 5 (1000, ''X'', undefined_api, no_retry_options)"
  let ?w5 = "snd (run demo_platform ?cs fresh_system)"
  have opts: "retryCount no_retry_options = 0" "timeout no_retry_options = 5000"
    "\<not> cacheEnabled no_retry_options"
    by (simp_all add: no_retry_options_def default_options_def)
  have h1: "circuitBreaker fresh_system ''X'' = None"
    by (simp add: fresh_system_def)
  have h2: "\<forall>c\<in>set ?cs. fst (snd c) = ''X'' \<and> \<not> cacheEnabled (snd (snd (snd c)))
           \<and> rr_result (executeWithRetry demo_platform (fst (snd (snd c)))
                          (retryCount (snd (snd (snd c)))) (timeout (snd (snd (snd c)))))
               = Inl NullishError"
    by (simp add: opts undefined_api_once)
  note R = run_nullish_calls [OF h1 h2]
  have none: "circuitBreaker ?w5 ''X'' = None" using R by blast
  have len: "length (fst (run demo_platform ?cs fresh_system)) = 5"
    by (simp add: length_run)
  have res: "map result (fst (run demo_platform ?cs fresh_system)) = replicate 5 (Inl TypeError)"
    using R len by (intro replicate_eqI) auto
  have calls: "\<forall>r\<in>set (fst (run demo_platform cs w)). op_calls r = 1"
    if "\<forall>c\<in>set cs. c = (1000, ''X'', undefined_api, no_retry_options)"
      "circuitBreaker w ''X'' = None" for cs w
    using that
  proof (induction cs arbitrary: w)
    case Nil
    then show ?case by simp
  next
    case (Cons c cs)
    have c: "c = (1000, ''X'', undefined_api, no_retry_options)"
      using Cons.prems(1) by (meson list.set_intros(1))
    let ?w0 = "pass_time demo_platform 1000 w"
    have ro: "reaches_operation demo_platform ''X'' no_retry_options ?w0"
      using Cons.prems(2) opts(3) by (simp add: reaches_operation_def breaker_blocks_def)
    have nl: "rr_result (executeWithRetry demo_platform undefined_api
                (retryCount no_retry_options) (timeout no_retry_options)) = Inl NullishError"
      by (simp add: opts undefined_api_once)
    have 1: "op_calls (fst (optimizeAPICall demo_platform ''X'' undefined_api no_retry_options ?w0)) = 1"
      by (simp add: call_executes_result [OF ro] opts undefined_api_once)
    have 2: "circuitBreaker (snd (optimizeAPICall demo_platform ''X'' undefined_api
                                    no_retry_options ?w0)) ''X'' = None"
      using Cons.prems(2) by (simp add: call_nullish(2) [OF ro nl] checked_breaker)
    have "\<forall>r\<in>set (fst (run demo_platform cs (snd (optimizeAPICall demo_platform ''X''
                  undefined_api no_retry_options ?w0)))). op_calls r = 1"
      using Cons.prems(1) 2 by (intro Cons.IH) (simp_all del: undefined_api.simps)
    then show ?case unfolding c run_Cons using 1 by simp
  qed
  have "\<forall>r\<in>set (fst (run demo_platform ?cs fresh_system)). op_calls r = 1"
    using h1 by (intro calls) (simp_all del: undefined_api.simps)
  then have ops: "map op_calls (fst (run demo_platform ?cs fresh_system)) = replicate 5 1"
    using len by (intro replicate_eqI) auto
  have ro6: "reaches_operation demo_platform ''X'' no_cache_options (pass_time demo_platform 1000 ?w5)"
    using none
    by (simp add: reaches_operation_def breaker_blocks_def no_cache_options_def default_options_def)
  have six: "fst (optimizeAPICall demo_platform ''X'' working_api no_cache_options
                    (pass_time demo_platform 1000 ?w5))
     = \<lparr>result = Inr (JStr ''ok''), op_calls = 1, delays = []\<rparr>"
  proof -
    have "retryCount no_cache_options = 3" "timeout no_cache_options = 5000"
      by (simp_all add: no_cache_options_def default_options_def)
    then show ?thesis
      by (simp add: call_executes_result [OF ro6] working_api_once rethrown_def)
  qed
  show ?thesis
    using res ops none six by simp
qed

subsection \<open>Retries\<close>

text \<open>
  A call that gets as far as the operation reports what \<open>executeWithRetry\<close> did. That
  loop calls the operation at least once and at most \<open>retryCount + 1\<close> times; each attempt
  is the race of the operation against the timer of the per-attempt timeout; every
  attempt but the last has failed with something other than \<open>null\<close> or \<open>undefined\<close>; the
  loop ends early only on a success or on a failure with \<open>null\<close> or \<open>undefined\<close>; the
  delay slept after the failed attempt \<open>i\<close> is \<open>min (1000 * 2 ^ i) 5000\<close>. With
  \<open>retryCount = 3\<close> and an operation that fails twice in that way and then succeeds, the
  call returns the success after exactly 3 calls of the operation, having slept 1000 ms
  and then 2000 ms.
\<close>

lemma retries_with_backoff:
  assumes "r = executeWithRetry P f (retryCount opts) (timeout opts)"
  shows "(reaches_operation P n opts w \<longrightarrow>
            fst (optimizeAPICall P n f opts w)
              = \<lparr>result = rethrown (rr_result r), op_calls = rr_calls r, delays = rr_delays r\<rparr>)
     \<and> 1 \<le> rr_calls r
     \<and> rr_calls r \<le> retryCount opts + 1
     \<and> rr_delays r = map (\<lambda>i. min (1000 * 2 ^ i) 5000) [0 ..< rr_calls r - 1]
     \<and> rr_result r = loop_result (retryCount opts) (rr_calls r - 1)
                        (fst (attempt P (timeout opts) (f (rr_calls r - 1))))
     \<and> (\<forall>j. j < rr_calls r - 1 \<longrightarrow> retried (fst (attempt P (timeout opts) (f j))))
     \<and> (retried (fst (attempt P (timeout opts) (f (rr_calls r - 1))))
          \<longrightarrow> rr_calls r = retryCount opts + 1)
     \<and> (retryCount opts = 3 \<and> retried (fst (attempt P (timeout opts) (f 0)))
          \<and> retried (fst (attempt P (timeout opts) (f 1)))
          \<and> fst (attempt P (timeout opts) (f 2)) = Inr v
          \<and> reaches_operation P n opts w \<longrightarrow>
            fst (optimizeAPICall P n f opts w)
              = \<lparr>result = Inr v, op_calls = 3, delays = [1000, 2000]\<rparr>)"
proof -
  have bo: "backoff = (\<lambda>i. min (1000 * 2 ^ i) 5000)"
    by (rule ext) (simp add: backoff_def)
  note g = executeWithRetry_general [where P = P and f = f and n = "retryCount opts"
      and t = "timeout opts", folded assms, unfolded bo]
  have first: "reaches_operation P n opts w \<longrightarrow>
            fst (optimizeAPICall P n f opts w)
              = \<lparr>result = rethrown (rr_result r), op_calls = rr_calls r, delays = rr_delays r\<rparr>"
    unfolding assms by (simp add: call_executes_result)
  have last: "fst (optimizeAPICall P n f opts w)
              = \<lparr>result = Inr v, op_calls = 3, delays = [1000, 2000]\<rparr>"
    if "retryCount opts = 3" "retried (fst (attempt P (timeout opts) (f 0)))"
      "retried (fst (attempt P (timeout opts) (f 1)))" "fst (attempt P (timeout opts) (f 2)) = Inr v"
      "reaches_operation P n opts w"
    using executeWithRetry_two_failures [OF that(2,3,4)] that(1)
    by (simp add: call_executes_result [OF that(5)] rethrown_def)
  show ?thesis
    using first g last by blast
qed

lemma fresh_system_reaches:
  "reaches_operation demo_platform ''X'' default_options fresh_system"
  by (simp add: reaches_operation_def breaker_blocks_def cache_hit_def get_def fresh_system_def
      demo_platform_def)

text \<open>
  With the default options: an operation that rejects twice with an error and then
  succeeds is called three times, 1000 ms and then 2000 ms apart; one that never
  settles is called four times, each attempt ending with the timeout error after the
  5000 ms of the timeout, 1000, 2000 and 4000 ms apart.
\<close>

lemma retries_with_backoff_example:
  "fst (optimizeAPICall demo_platform ''X'' flaky_api default_options fresh_system)
       = \<lparr>result = Inr (JStr ''ok''), op_calls = 3, delays = [1000, 2000]\<rparr>"
proof -
  have "retryCount default_options = 3
     \<and> retried (fst (attempt demo_platform (timeout default_options) (flaky_api 0)))
     \<and> retried (fst (attempt demo_platform (timeout default_options) (flaky_api 1)))
     \<and> fst (attempt demo_platform (timeout default_options) (flaky_api 2)) = Inr (JStr ''ok'')"
    by (simp add: default_options_def retried_def attempt_def setTimeout_delay_def)
  then show ?thesis
    using fresh_system_reaches
      retries_with_backoff [OF refl, of demo_platform "''X''" default_options fresh_system
        flaky_api "JStr ''ok''"]
    by blast
qed

lemma timeout_example:
  "fst (optimizeAPICall demo_platform ''X'' hanging_api default_options fresh_system)
       = \<lparr>result = Inl TimeoutError, op_calls = 4, delays = [1000, 2000, 4000]\<rparr>
   \<and> clock (snd (optimizeAPICall demo_platform ''X'' hanging_api default_options fresh_system))
       = 4 * 5000 + 1000 + 2000 + 4000"
proof -
  have opts: "retryCount default_options = 3" "timeout default_options = 5000"
    by (simp_all add: default_options_def)
  have at: "attempt demo_platform 5000 (hanging_api i) = (Inl TimeoutError, 5000)" for i
    by (simp add: attempt_pending)
  have r3: "retry_loop demo_platform hanging_api 3 5000 (Suc (Suc (Suc 0))) le
      = \<lparr>rr_result = Inl TimeoutError, rr_calls = 1, rr_delays = [], rr_elapsed = 5000\<rparr>" for le
    using retry_loop_last [where f = hanging_api and n = 3 and le = le, OF at [of 3]]
    by (simp add: numeral_3_eq_3 del: hanging_api.simps)
  have r2: "retry_loop demo_platform hanging_api 3 5000 (Suc (Suc 0)) le
      = \<lparr>rr_result = Inl TimeoutError, rr_calls = 2, rr_delays = [4000], rr_elapsed = 14000\<rparr>" for le
    by (subst retry_loop_retry [OF _ at]) (simp_all add: r3 backoff_def)
  have r1: "retry_loop demo_platform hanging_api 3 5000 (Suc 0) le
      = \<lparr>rr_result = Inl TimeoutError, rr_calls = 3, rr_delays = [2000, 4000],
         rr_elapsed = 21000\<rparr>" for le
    by (subst retry_loop_retry [OF _ at]) (simp_all add: r2 backoff_def)
  have r0: "executeWithRetry demo_platform hanging_api 3 5000
      = \<lparr>rr_result = Inl TimeoutError, rr_calls = 4, rr_delays = [1000, 2000, 4000],
         rr_elapsed = 27000\<rparr>"
    unfolding executeWithRetry_def
    by (subst retry_loop_retry [OF _ at]) (simp_all add: r1 backoff_def)
  have c0: "clock fresh_system = 0" by (simp add: fresh_system_def)
  show ?thesis
    by (simp add: call_executes_result [OF fresh_system_reaches]
        executed_clock [OF fresh_system_reaches] opts r0 rethrown_def c0)
qed

text \<open>
  Claim C5, refuted by a run of the code. With the default options (\<open>retryCount = 3\<close>) and
  an operation that fails twice and then succeeds, where it fails by rejecting with
  \<open>undefined\<close>: the operation is called once and not again, no delay is slept, and the
  call rejects with the \<open>TypeError\<close> that the log line before the backoff raises when it
  reads \<open>error.message\<close> (line 549).
\<close>

theorem undefined_rejection_ends_retries:
  "undefined_twice_api 0 = Rejects 10 Nullish
   \<and> undefined_twice_api 1 = Rejects 10 Nullish
   \<and> undefined_twice_api 2 = Resolves 10 (JStr ''ok'')
   \<and> retryCount default_options = 3
   \<and> fst (optimizeAPICall demo_platform ''X'' undefined_twice_api default_options fresh_system)
       = \<lparr>result = Inl TypeError, op_calls = 1, delays = []\<rparr>"
proof -
  have opts: "retryCount default_options = 3" "timeout default_options = 5000"
    by (simp_all add: default_options_def)
  have at: "attempt demo_platform 5000 (undefined_twice_api 0) = (Inl NullishError, 10)"
    by (simp add: attempt_def setTimeout_delay_def)
  have "executeWithRetry demo_platform undefined_twice_api 3 5000
      = \<lparr>rr_result = Inl TypeError, rr_calls = 1, rr_delays = [], rr_elapsed = 10\<rparr>"
    using at
    by (intro executeWithRetry_nullish_first [where d = 10]) simp_all
  then show ?thesis
    by (simp add: call_executes_result [OF fresh_system_reaches] opts rethrown_def)
qed

subsection \<open>Recovery through the half-open state\<close>

lemma executeWithRetry_not_circuit:
  "rethrown (rr_result (executeWithRetry P f k t)) \<noteq> Inl (CircuitOpenError n)"
  by (simp add: executeWithRetry_general(4) [where P = P and f = f and n = k and t = t]
      loop_result_def rethrown_def attempt_not_circuit)

text \<open>A call that the breaker does not block is not rejected.\<close>

lemma not_blocked_not_rejected:
  assumes "\<not> (circuitBreakerEnabled opts \<and> breaker_blocks n w)"
  shows "result (fst (optimizeAPICall P n f opts w)) \<noteq> Inl (CircuitOpenError n)"
proof (cases "cacheEnabled opts \<and> cache_hit P n w")
  case True
  then show ?thesis
    using assms optimizeAPICall_cached [of opts n w P f] by simp
next
  case False
  then have ro: "reaches_operation P n opts w"
    using assms by (simp add: reaches_operation_def)
  show ?thesis
    by (simp add: call_executes_result [OF ro] executeWithRetry_not_circuit)
qed

text \<open>
  A call that passes the breaker check after the cooldown and is then answered from the
  cache returns before the breaker is reset: it leaves the breaker half-open.
\<close>

lemma half_open_cache_hit:
  assumes "circuitBreaker w n = Some b"
    and "state b = Open"
    and "clock w - lastFailTime b > cooldownTime b"
    and "circuitBreakerEnabled opts"
    and "cacheEnabled opts"
    and "cache_hit P n w"
  shows "fst (optimizeAPICall P n f opts w)
           = \<lparr>result = Inr (fst (get P (clock w) (''api_'' @ n) (cache w))),
              op_calls = 0, delays = []\<rparr>"
    and "circuitBreaker (snd (optimizeAPICall P n f opts w)) n = Some (b\<lparr>state := HalfOpen\<rparr>)"
proof -
  have nb: "\<not> (circuitBreakerEnabled opts \<and> breaker_blocks n w)"
    using assms(1,3) by (simp add: breaker_blocks_def)
  note eq = optimizeAPICall_cached [OF nb assms(5,6), of f]
  show "fst (optimizeAPICall P n f opts w)
           = \<lparr>result = Inr (fst (get P (clock w) (''api_'' @ n) (cache w))),
              op_calls = 0, delays = []\<rparr>"
    by (simp add: eq)
  show "circuitBreaker (snd (optimizeAPICall P n f opts w)) n = Some (b\<lparr>state := HalfOpen\<rparr>)"
    using assms(1,2,3,4) by (simp add: eq checked_breaker)
qed

text \<open>
  Claim C3, as the code has it. Let the breaker of a name have tripped (state open,
  failure count at or above the threshold), and let more than \<open>cooldownTime\<close> have passed
  since its last failure. Then the breaker check of the next call with the breaker
  enabled answers \<open>false\<close> and puts the breaker in the half-open state, and the call is
  not rejected. Nor is any other call that finds the breaker half-open: the half-open
  state admits every caller, not a single trial. What the call does to the breaker
  depends on how it goes on:

    \<^item> answered from the cache, it returns the cached value without calling the
      operation, and the breaker stays half-open;

    \<^item> otherwise the operation is called. If the call succeeds, the breaker is closed
      with a failure count of 0. If it fails with an error other than a \<open>TypeError\<close>,
      the breaker is open again, its failure count one higher and its last failure
      time the time of this failure; the cooldown starts anew, so that any call within
      \<open>cooldownTime\<close> of the failure is rejected without calling the operation.
\<close>

theorem half_open_recovery:
  assumes "circuitBreaker w n = Some b"
    and "state b = Open"
    and "threshold b \<le> failureCount b"
    and "clock w - lastFailTime b > cooldownTime b"
    and "circuitBreakerEnabled opts"
  shows "isCircuitBreakerOpen n w
           = (False, w\<lparr>circuitBreaker := (circuitBreaker w)(n \<mapsto> b\<lparr>state := HalfOpen\<rparr>)\<rparr>)
     \<and> result (fst (optimizeAPICall P n f opts w)) \<noteq> Inl (CircuitOpenError n)
     \<and> (\<forall>w' f' opts'. circuitBreaker w' n = Some (b\<lparr>state := HalfOpen\<rparr>) \<longrightarrow>
           result (fst (optimizeAPICall P n f' opts' w')) \<noteq> Inl (CircuitOpenError n))
     \<and> (cacheEnabled opts \<and> cache_hit P n w \<longrightarrow>
           fst (optimizeAPICall P n f opts w)
             = \<lparr>result = Inr (fst (get P (clock w) (''api_'' @ n) (cache w))),
                op_calls = 0, delays = []\<rparr>
         \<and> circuitBreaker (snd (optimizeAPICall P n f opts w)) n = Some (b\<lparr>state := HalfOpen\<rparr>))
     \<and> (\<not> (cacheEnabled opts \<and> cache_hit P n w) \<longrightarrow>
           1 \<le> op_calls (fst (optimizeAPICall P n f opts w))
         \<and> (\<forall>v. result (fst (optimizeAPICall P n f opts w)) = Inr v \<longrightarrow>
               circuitBreaker (snd (optimizeAPICall P n f opts w)) n
                 = Some (b\<lparr>failureCount := 0, state := Closed\<rparr>))
         \<and> (\<forall>e. result (fst (optimizeAPICall P n f opts w)) = Inl e \<and> e \<noteq> TypeError \<longrightarrow>
               circuitBreaker (snd (optimizeAPICall P n f opts w)) n
                 = Some (b\<lparr>failureCount := failureCount b + 1,
                           lastFailTime := clock (snd (optimizeAPICall P n f opts w)),
                           state := Open\<rparr>)
             \<and> (\<forall>gap f' opts'. int gap \<le> cooldownTime b \<and> circuitBreakerEnabled opts' \<longrightarrow>
                   fst (optimizeAPICall P n f' opts'
                          (pass_time P gap (snd (optimizeAPICall P n f opts w))))
                     = \<lparr>result = Inl (CircuitOpenError n), op_calls = 0, delays = []\<rparr>)))"
proof -
  let ?r = "executeWithRetry P f (retryCount opts) (timeout opts)"
  let ?res = "optimizeAPICall P n f opts w"
  have nb: "\<not> breaker_blocks n w"
    using assms(1,4) by (simp add: breaker_blocks_def)
  have c1: "isCircuitBreakerOpen n w
           = (False, w\<lparr>circuitBreaker := (circuitBreaker w)(n \<mapsto> b\<lparr>state := HalfOpen\<rparr>)\<rparr>)"
    using assms(1,2,4) by (simp add: isCircuitBreakerOpen_def)
  have c2: "result (fst ?res) \<noteq> Inl (CircuitOpenError n)"
    using nb by (intro not_blocked_not_rejected) simp
  have c3: "result (fst (optimizeAPICall P n f' opts' w')) \<noteq> Inl (CircuitOpenError n)"
    if "circuitBreaker w' n = Some (b\<lparr>state := HalfOpen\<rparr>)" for w' f' opts'
  proof -
    have "\<not> breaker_blocks n w'" using that by (simp add: breaker_blocks_def)
    then show ?thesis by (intro not_blocked_not_rejected) simp
  qed
  have half: "circuitBreaker (checked P n opts w) n = Some (b\<lparr>state := HalfOpen\<rparr>)"
    using assms(1,2,4,5) by (simp add: checked_breaker)
  have c4: "fst ?res = \<lparr>result = Inr (fst (get P (clock w) (''api_'' @ n) (cache w))),
                         op_calls = 0, delays = []\<rparr>
          \<and> circuitBreaker (snd ?res) n = Some (b\<lparr>state := HalfOpen\<rparr>)"
    if "cacheEnabled opts \<and> cache_hit P n w"
    using half_open_cache_hit [OF assms(1,2,4,5), of P f] that by simp
  have executed: "1 \<le> op_calls (fst ?res)
         \<and> (\<forall>v. result (fst ?res) = Inr v \<longrightarrow>
               circuitBreaker (snd ?res) n = Some (b\<lparr>failureCount := 0, state := Closed\<rparr>))
         \<and> (\<forall>e. result (fst ?res) = Inl e \<and> e \<noteq> TypeError \<longrightarrow>
               circuitBreaker (snd ?res) n
                 = Some (b\<lparr>failureCount := failureCount b + 1, lastFailTime := clock (snd ?res),
                           state := Open\<rparr>)
             \<and> (\<forall>gap f' opts'. int gap \<le> cooldownTime b \<and> circuitBreakerEnabled opts' \<longrightarrow>
                   fst (optimizeAPICall P n f' opts' (pass_time P gap (snd ?res)))
                     = \<lparr>result = Inl (CircuitOpenError n), op_calls = 0, delays = []\<rparr>))"
    if nc: "\<not> (cacheEnabled opts \<and> cache_hit P n w)"
  proof -
    have ro: "reaches_operation P n opts w"
      using nb nc by (simp add: reaches_operation_def)
    have res: "fst ?res = \<lparr>result = rethrown (rr_result ?r), op_calls = rr_calls ?r,
                            delays = rr_delays ?r\<rparr>"
      by (rule call_executes_result [OF ro])
    have e1: "1 \<le> op_calls (fst ?res)"
      unfolding res
      using executeWithRetry_general(1) [where P = P and f = f and n = "retryCount opts"
          and t = "timeout opts"] by simp
    have e2: "circuitBreaker (snd ?res) n = Some (b\<lparr>failureCount := 0, state := Closed\<rparr>)"
      if "result (fst ?res) = Inr v" for v
    proof -
      have "rr_result ?r = Inr v"
        using that unfolding res by (simp add: rethrown_def split: if_splits)
      then show ?thesis
        by (simp add: executed_state [OF ro] Let_def on_success_breaker half)
    qed
    have e3: "circuitBreaker (snd ?res) n
               = Some (b\<lparr>failureCount := failureCount b + 1, lastFailTime := clock (snd ?res),
                         state := Open\<rparr>)"
      if "result (fst ?res) = Inl e" "e \<noteq> TypeError" for e
    proof -
      have e: "rr_result ?r = Inl e" and ne: "e \<noteq> NullishError"
        using that unfolding res by (auto simp: rethrown_def split: if_splits)
      show ?thesis
        using assms(3,5)
        by (simp add: executed_clock [OF ro] executed_state [OF ro] e Let_def
            catch_block_state [OF ne] updateCircuitBreaker_def half)
    qed
    have e4: "fst (optimizeAPICall P n f' opts' (pass_time P gap (snd ?res)))
                   = \<lparr>result = Inl (CircuitOpenError n), op_calls = 0, delays = []\<rparr>"
      if "result (fst ?res) = Inl e" "e \<noteq> TypeError" "int gap \<le> cooldownTime b"
        "circuitBreakerEnabled opts'"
      for e gap f' opts'
    proof -
      have "breaker_blocks n (pass_time P gap (snd ?res))"
        using e3 [OF that(1,2)] that(3) by (simp add: breaker_blocks_def)
      then show ?thesis using that(4) by (simp add: call_rejected(1))
    qed
    show ?thesis
      using e1 e2 e3 e4 by blast
  qed
  show ?thesis
    using c1 c2 c3 c4 executed by blast
qed

theorem half_open_recovery_witness:
  "circuitBreaker (tripped_system 120000) ''X'' = Some tripped_breaker
   \<and> state tripped_breaker = Open
   \<and> threshold tripped_breaker \<le> failureCount tripped_breaker
   \<and> clock (tripped_system 120000) - lastFailTime tripped_breaker > cooldownTime tripped_breaker
   \<and> circuitBreakerEnabled default_options
   \<and> \<not> cache_hit demo_platform ''X'' (tripped_system 120000)
   \<and> result (fst (optimizeAPICall demo_platform ''X'' working_api default_options
                     (tripped_system 120000))) = Inr (JStr ''ok'')
   \<and> circuitBreaker (snd (optimizeAPICall demo_platform ''X'' working_api default_options
                             (tripped_system 120000))) ''X''
       = Some (tripped_breaker\<lparr>failureCount := 0, state := Closed\<rparr>)"
proof -
  let ?w = "tripped_system 120000"
  have h1: "circuitBreaker ?w ''X'' = Some tripped_breaker"
    by (simp add: tripped_system_def)
  have h2: "state tripped_breaker = Open" by (simp add: tripped_breaker_def)
  have h3: "threshold tripped_breaker \<le> failureCount tripped_breaker"
    by (simp add: tripped_breaker_def)
  have h4: "clock ?w - lastFailTime tripped_breaker > cooldownTime tripped_breaker"
    by (simp add: tripped_system_def tripped_breaker_def)
  have h5: "circuitBreakerEnabled default_options" by (simp add: default_options_def)
  have h6: "\<not> cache_hit demo_platform ''X'' ?w"
    by (simp add: cache_hit_def get_def tripped_system_def fresh_system_def demo_platform_def)
  have ro: "reaches_operation demo_platform ''X'' default_options ?w"
    using h1 h4 h6 by (simp add: reaches_operation_def breaker_blocks_def)
  have ok: "result (fst (optimizeAPICall demo_platform ''X'' working_api default_options ?w))
      = Inr (JStr ''ok'')"
  proof -
    have "retryCount default_options = 3" "timeout default_options = 5000"
      by (simp_all add: default_options_def)
    then show ?thesis
      by (simp add: call_executes_result [OF ro] working_api_once rethrown_def)
  qed
  show ?thesis
    using h1 h2 h3 h4 h5 h6 ok
      half_open_recovery [OF h1 h2 h3 h4 h5, of demo_platform working_api]
    by blast
qed

text \<open>
  The claim's single trial that closes the breaker on success is not what the code does.
  Here the breaker of \<open>X\<close> tripped at 50000 and a cached result for \<open>X\<close> is in the cache.
  The call at 120000, after the cooldown, is let through and succeeds, but from the
  cache: the operation is not called and the breaker is left half-open, with its
  failure count of 5, not closed with 0. A second call, 1000 ms later and before
  anything has closed the breaker, is let through as well.
\<close>

theorem half_open_counterexample:
  "fst (optimizeAPICall demo_platform ''X'' working_api default_options
          (tripped_cached_system 120000))
     = \<lparr>result = Inr (JStr ''cached''), op_calls = 0, delays = []\<rparr>
   \<and> circuitBreaker (snd (optimizeAPICall demo_platform ''X'' working_api default_options
                             (tripped_cached_system 120000))) ''X''
       = Some \<lparr>failureCount = 5, lastFailTime = 50000, state = HalfOpen, threshold = 5,
               cooldownTime = 60000\<rparr>
   \<and> fst (optimizeAPICall demo_platform ''X'' working_api no_cache_options
            (pass_time demo_platform 1000
               (snd (optimizeAPICall demo_platform ''X'' working_api default_options
                       (tripped_cached_system 120000)))))
     = \<lparr>result = Inr (JStr ''ok''), op_calls = 1, delays = []\<rparr>"
proof -
  let ?w1 = "snd (optimizeAPICall demo_platform ''X'' working_api default_options
                    (tripped_cached_system 120000))"
  have first: "fst (optimizeAPICall demo_platform ''X'' working_api default_options
                    (tripped_cached_system 120000))
     = \<lparr>result = Inr (JStr ''cached''), op_calls = 0, delays = []\<rparr>
   \<and> circuitBreaker ?w1 ''X'' = Some (tripped_breaker\<lparr>state := HalfOpen\<rparr>)"
    by (simp add: optimizeAPICall_def isCircuitBreakerOpen_def get_def count_hit_def
        default_options_def tripped_cached_system_def cached_entry_def demo_platform_def
        tripped_system_def tripped_breaker_def fresh_system_def Let_def)
  have ro: "reaches_operation demo_platform ''X'' no_cache_options (pass_time demo_platform 1000 ?w1)"
    using first
    by (simp add: reaches_operation_def breaker_blocks_def no_cache_options_def
        default_options_def)
  have second: "fst (optimizeAPICall demo_platform ''X'' working_api no_cache_options
            (pass_time demo_platform 1000 ?w1))
     = \<lparr>result = Inr (JStr ''ok''), op_calls = 1, delays = []\<rparr>"
  proof -
    have "retryCount no_cache_options = 3" "timeout no_cache_options = 5000"
      by (simp_all add: no_cache_options_def default_options_def)
    then show ?thesis
      by (simp add: call_executes_result [OF ro] working_api_once rethrown_def)
  qed
  show ?thesis
    using first second by (simp add: tripped_breaker_def)
qed

subsection \<open>Rejections restart the cooldown\<close>

lemma rejected_iff:
  assumes "circuitBreakerEnabled opts"
  shows "(result (fst (optimizeAPICall P n f opts w)) = Inl (CircuitOpenError n)) = breaker_blocks n w"
proof (cases "breaker_blocks n w")
  case True
  then show ?thesis using assms by (simp add: call_rejected(1))
next
  case False
  then show ?thesis
    using not_blocked_not_rejected [of opts n w P f] by simp
qed

lemma run_rejections:
  assumes "\<forall>c\<in>set cs. fst (snd c) = n \<and> circuitBreakerEnabled (snd (snd (snd c)))
              \<and> int (fst c) \<le> cooldownTime (breaker_of n w)"
    and "circuitBreaker w n \<noteq> None"
    and "state (breaker_of n w) = Open"
    and "lastFailTime (breaker_of n w) = clock w"
  shows "(\<forall>r\<in>set (fst (run P cs w)).
            r = \<lparr>result = Inl (CircuitOpenError n), op_calls = 0, delays = []\<rparr>)
     \<and> circuitBreaker (snd (run P cs w)) n \<noteq> None
     \<and> state (breaker_of n (snd (run P cs w))) = Open
     \<and> lastFailTime (breaker_of n (snd (run P cs w))) = clock (snd (run P cs w))
     \<and> failureCount (breaker_of n (snd (run P cs w))) = failureCount (breaker_of n w) + length cs"
  using assms
proof (induction cs arbitrary: w)
  case Nil
  then show ?case by simp
next
  case (Cons c cs)
  obtain gap n' f opts where c: "c = (gap, n', f, opts)" by (cases c)
  have n': "n' = n" and en: "circuitBreakerEnabled opts"
    and gap: "int gap \<le> cooldownTime (breaker_of n w)"
    using Cons.prems(1) unfolding c by simp_all
  let ?w0 = "pass_time P gap w"
  let ?w1 = "snd (optimizeAPICall P n f opts ?w0)"
  have bl: "breaker_blocks n ?w0"
    unfolding breaker_blocks_of using Cons.prems(2,3,4) gap by simp
  note rj = call_rejected [OF en bl, of P f]
  have b1: "breaker_of n ?w1
      = (breaker_of n w)\<lparr>failureCount := failureCount (breaker_of n w) + 1, lastFailTime := clock ?w0\<rparr>"
    using rj(4) by (simp add: breaker_of_def)
  have p1: "\<forall>c\<in>set cs. fst (snd c) = n \<and> circuitBreakerEnabled (snd (snd (snd c)))
              \<and> int (fst c) \<le> cooldownTime (breaker_of n ?w1)"
    using Cons.prems(1) by (simp add: b1)
  have p2: "circuitBreaker ?w1 n \<noteq> None" using rj(4) by simp
  have p3: "state (breaker_of n ?w1) = Open" using Cons.prems(3) by (simp add: b1)
  have p4: "lastFailTime (breaker_of n ?w1) = clock ?w1" using rj(2) by (simp add: b1)
  note IH = Cons.IH [OF p1 p2 p3 p4]
  show ?case
    unfolding c n' run_Cons using IH rj(1) by (simp add: b1)
qed

text \<open>
  With the breaker enabled, every call that fails with an error other than a \<open>TypeError\<close>
  has run \<open>updateCircuitBreaker\<close>: afterwards the name has a breaker whose failure count
  is one higher and whose last failure time is the time at which the call failed. This
  includes the call rejected because the breaker is open with its cooldown unexpired: it
  is rejected without calling the operation, takes no time, and sets the last failure
  time to the time of the rejection. A call is rejected exactly when the breaker is open
  and at most \<open>cooldownTime\<close> has passed since the last failure. Hence, from a breaker
  that has just recorded a failure and is open, calls that follow one another with gaps
  of at most \<open>cooldownTime\<close> are all rejected, however many they are, and the breaker
  stays open: it is let through (half-open) only by a call that arrives more than
  \<open>cooldownTime\<close> after the previous one.
\<close>

lemma rejections_restart_cooldown:
  assumes "circuitBreakerEnabled opts"
  shows "(isl (result (fst (optimizeAPICall P n f opts w)))
          \<and> result (fst (optimizeAPICall P n f opts w)) \<noteq> Inl TypeError \<longrightarrow>
            circuitBreaker (snd (optimizeAPICall P n f opts w)) n
              = Some (breaker_of n (snd (optimizeAPICall P n f opts w)))
          \<and> failureCount (breaker_of n (snd (optimizeAPICall P n f opts w)))
              = failureCount (breaker_of n w) + 1
          \<and> lastFailTime (breaker_of n (snd (optimizeAPICall P n f opts w)))
              = clock (snd (optimizeAPICall P n f opts w)))
     \<and> (breaker_blocks n w \<longrightarrow>
            fst (optimizeAPICall P n f opts w)
              = \<lparr>result = Inl (CircuitOpenError n), op_calls = 0, delays = []\<rparr>
          \<and> clock (snd (optimizeAPICall P n f opts w)) = clock w
          \<and> circuitBreaker (snd (optimizeAPICall P n f opts w)) n
              = Some ((breaker_of n w)\<lparr>failureCount := failureCount (breaker_of n w) + 1,
                                         lastFailTime := clock w\<rparr>))
     \<and> (result (fst (optimizeAPICall P n f opts w)) = Inl (CircuitOpenError n))
          = breaker_blocks n w
     \<and> ((\<forall>c\<in>set cs. fst (snd c) = n \<and> circuitBreakerEnabled (snd (snd (snd c)))
              \<and> int (fst c) \<le> cooldownTime (breaker_of n w))
          \<and> circuitBreaker w n \<noteq> None \<and> state (breaker_of n w) = Open
          \<and> lastFailTime (breaker_of n w) = clock w \<longrightarrow>
            (\<forall>r\<in>set (fst (run P cs w)).
                r = \<lparr>result = Inl (CircuitOpenError n), op_calls = 0, delays = []\<rparr>)
          \<and> state (breaker_of n (snd (run P cs w))) = Open
          \<and> lastFailTime (breaker_of n (snd (run P cs w))) = clock (snd (run P cs w))
          \<and> failureCount (breaker_of n (snd (run P cs w)))
              = failureCount (breaker_of n w) + length cs)"
proof -
  note a = call_failure_updates(1,2,3) [OF assms, of P n f w]
  note b = call_rejected(1,2,4) [OF assms, of n w P f]
  note c = rejected_iff [OF assms, of P n f w]
  note d = run_rejections [of cs n w P]
  show ?thesis
    using a b c d by blast
qed

lemma rejections_restart_cooldown_example:
  "fst (optimizeAPICall demo_platform ''X'' working_api default_options (tripped_system 110000))
       = \<lparr>result = Inl (CircuitOpenError ''X''), op_calls = 0, delays = []\<rparr>
   \<and> circuitBreaker (snd (optimizeAPICall demo_platform ''X'' working_api default_options
                             (tripped_system 110000))) ''X''
       = Some \<lparr>failureCount = 6, lastFailTime = 110000, state = Open, threshold = 5,
               cooldownTime = 60000\<rparr>"
proof -
  have h1: "circuitBreakerEnabled default_options" by (simp add: default_options_def)
  have h2: "breaker_blocks ''X'' (tripped_system 110000)"
    by (simp add: breaker_blocks_def tripped_system_def tripped_breaker_def)
  have h3: "breaker_of ''X'' (tripped_system 110000) = tripped_breaker"
    by (simp add: breaker_of_def tripped_system_def)
  have h4: "clock (tripped_system 110000) = 110000" by (simp add: tripped_system_def)
  have "fst (optimizeAPICall demo_platform ''X'' working_api default_options (tripped_system 110000))
       = \<lparr>result = Inl (CircuitOpenError ''X''), op_calls = 0, delays = []\<rparr>
     \<and> circuitBreaker (snd (optimizeAPICall demo_platform ''X'' working_api default_options
                             (tripped_system 110000))) ''X''
       = Some (tripped_breaker\<lparr>failureCount := failureCount tripped_breaker + 1,
                                lastFailTime := 110000\<rparr>)"
    using h2 rejections_restart_cooldown [OF h1, of demo_platform "''X''" working_api
        "tripped_system 110000" "[]"]
    unfolding h3 h4 by blast
  then show ?thesis
    by (simp add: tripped_breaker_def)
qed

text \<open>
  Claim C4, refuted by a run of the code. The breaker of \<open>X\<close> is closed and has counted
  two failures, the last at time 500. At time 1000 a call with the breaker enabled and
  no retries runs an operation that rejects with \<open>undefined\<close>. The call fails, but this
  failure path does not reach \<open>updateCircuitBreaker\<close>: reading \<open>error.message\<close> of
  \<open>undefined\<close> (line 513) throws before it. The breaker still counts two failures, its
  last failure time is still 500, and no failure metric has been recorded. The same
  call with an operation that rejects with an error counts the failure.
\<close>

theorem undefined_failure_skips_breaker_update:
  "circuitBreakerEnabled no_retry_options
   \<and> fst (optimizeAPICall demo_platform ''X'' undefined_api no_retry_options counting_system)
       = \<lparr>result = Inl TypeError, op_calls = 1, delays = []\<rparr>
   \<and> circuitBreaker (snd (optimizeAPICall demo_platform ''X'' undefined_api no_retry_options
                             counting_system)) ''X''
       = Some \<lparr>failureCount = 2, lastFailTime = 500, state = Closed, threshold = 5,
               cooldownTime = 60000\<rparr>
   \<and> apiMetrics (snd (optimizeAPICall demo_platform ''X'' undefined_api no_retry_options
                         counting_system)) ''X'' = None
   \<and> fst (optimizeAPICall demo_platform ''X'' failing_api no_retry_options counting_system)
       = \<lparr>result = Inl (OperationError ''down''), op_calls = 1, delays = []\<rparr>
   \<and> circuitBreaker (snd (optimizeAPICall demo_platform ''X'' failing_api no_retry_options
                             counting_system)) ''X''
       = Some \<lparr>failureCount = 3, lastFailTime = 1010, state = Closed, threshold = 5,
               cooldownTime = 60000\<rparr>"
proof -
  have opts: "retryCount no_retry_options = 0" "timeout no_retry_options = 5000"
    "\<not> cacheEnabled no_retry_options" "circuitBreakerEnabled no_retry_options"
    by (simp_all add: no_retry_options_def default_options_def)
  have br: "circuitBreaker counting_system ''X'' = Some counting_breaker"
    "clock counting_system = 1000" "apiMetrics counting_system ''X'' = None"
    by (simp_all add: counting_system_def fresh_system_def)
  have ro: "reaches_operation demo_platform ''X'' no_retry_options counting_system"
    using opts(3) br(1)
    by (simp add: reaches_operation_def breaker_blocks_def counting_breaker_def)
  have nl: "rr_result (executeWithRetry demo_platform undefined_api
              (retryCount no_retry_options) (timeout no_retry_options)) = Inl NullishError"
    by (simp add: opts undefined_api_once)
  have ck: "circuitBreaker (checked demo_platform ''X'' no_retry_options counting_system) ''X''
      = Some counting_breaker"
    by (simp add: checked_breaker br opts counting_breaker_def)
  have cm: "apiMetrics (checked demo_platform ''X'' no_retry_options counting_system) ''X'' = None"
    by (simp add: checked_def Let_def isCircuitBreakerOpen_frame br)
  have u1: "fst (optimizeAPICall demo_platform ''X'' undefined_api no_retry_options counting_system)
       = \<lparr>result = Inl TypeError, op_calls = 1, delays = []\<rparr>"
    by (simp add: call_executes_result [OF ro] opts undefined_api_once rethrown_def)
  have u2: "circuitBreaker (snd (optimizeAPICall demo_platform ''X'' undefined_api
                                   no_retry_options counting_system)) ''X''
       = Some counting_breaker"
    by (simp add: call_nullish(2) [OF ro nl] ck)
  have u3: "apiMetrics (snd (optimizeAPICall demo_platform ''X'' undefined_api no_retry_options
                         counting_system)) ''X'' = None"
    by (simp add: call_nullish(3) [OF ro nl] cm)
  have fr: "executeWithRetry demo_platform failing_api 0 5000
     = \<lparr>rr_result = Inl (OperationError ''down''), rr_calls = 1, rr_delays = [], rr_elapsed = 10\<rparr>"
    unfolding executeWithRetry_def
    by (rule retry_loop_last) (simp add: attempt_def setTimeout_delay_def)
  have f1: "fst (optimizeAPICall demo_platform ''X'' failing_api no_retry_options counting_system)
       = \<lparr>result = Inl (OperationError ''down''), op_calls = 1, delays = []\<rparr>"
    by (simp add: call_executes_result [OF ro] opts fr rethrown_def)
  have f2: "circuitBreaker (snd (optimizeAPICall demo_platform ''X'' failing_api no_retry_options
                             counting_system)) ''X''
       = Some (counting_breaker\<lparr>failureCount := 3, lastFailTime := 1010\<rparr>)"
    using ck
    by (simp add: executed_state [OF ro] opts fr Let_def catch_block_state
        updateCircuitBreaker_def br counting_breaker_def)
  show ?thesis
    using opts(4) u1 u2 u3 f1 f2 by (simp add: counting_breaker_def)
qed

subsection \<open>The cache and the breaker\<close>

lemma get_valid_entry:
  assumes "map_of (storage c) (PREFIX @ key) = Some (Entry cd)"
    and "now - timestamp cd \<le> expireTime cd"
    and "\<not> wx_throws P (GetStorageSync (PREFIX @ key))"
  shows "fst (get P now key c) = (if compressed cd then decompressData P (data cd) else data cd)"
  using assms by (simp add: get_def Let_def)

lemma checked_breakers_disabled:
  "\<not> circuitBreakerEnabled opts \<Longrightarrow> circuitBreaker (checked P n opts w) = circuitBreaker w"
  by (simp add: checked_def Let_def)

text \<open>
  Claim C1, as the code has it. Let the cache be enabled and hold, under the key of the
  name, a readable entry that has not expired and whose value is truthy. When the breaker
  is enabled and open with its cooldown unexpired, the breaker is consulted first: the
  call fails with the circuit-open error, and neither the cache is read nor the operation
  called. In every other case (breaker disabled, absent, not open, or cooldown over) the
  call returns the cached value without calling the operation; with the breaker disabled
  it leaves the breakers as they were.
\<close>

theorem cache_behind_breaker:
  assumes "cacheEnabled opts"
    and "map_of (storage (cache w)) (PREFIX @ ''api_'' @ n) = Some (Entry cd)"
    and "clock w - timestamp cd \<le> expireTime cd"
    and "\<not> wx_throws P (GetStorageSync (PREFIX @ ''api_'' @ n))"
    and "v = (if compressed cd then decompressData P (data cd) else data cd)"
    and "truthy v"
  shows "(circuitBreakerEnabled opts \<and> breaker_blocks n w \<longrightarrow>
            fst (optimizeAPICall P n f opts w)
              = \<lparr>result = Inl (CircuitOpenError n), op_calls = 0, delays = []\<rparr>
          \<and> cache (snd (optimizeAPICall P n f opts w)) = cache w)
     \<and> (\<not> (circuitBreakerEnabled opts \<and> breaker_blocks n w) \<longrightarrow>
            fst (optimizeAPICall P n f opts w) = \<lparr>result = Inr v, op_calls = 0, delays = []\<rparr>)
     \<and> (\<not> circuitBreakerEnabled opts \<longrightarrow>
            circuitBreaker (snd (optimizeAPICall P n f opts w)) = circuitBreaker w)"
proof -
  have g: "fst (get P (clock w) (''api_'' @ n) (cache w)) = v"
    unfolding assms(5) using assms(2,3,4) by (intro get_valid_entry) simp_all
  have hit: "cache_hit P n w"
    using g assms(6) by (simp add: cache_hit_def)
  have c1: "fst (optimizeAPICall P n f opts w)
              = \<lparr>result = Inl (CircuitOpenError n), op_calls = 0, delays = []\<rparr>
          \<and> cache (snd (optimizeAPICall P n f opts w)) = cache w"
    if "circuitBreakerEnabled opts \<and> breaker_blocks n w"
    using that by (simp add: call_rejected)
  have c2: "fst (optimizeAPICall P n f opts w) = \<lparr>result = Inr v, op_calls = 0, delays = []\<rparr>"
    if "\<not> (circuitBreakerEnabled opts \<and> breaker_blocks n w)"
    using optimizeAPICall_cached [OF that assms(1) hit, of f] g by simp
  have c3: "circuitBreaker (snd (optimizeAPICall P n f opts w)) = circuitBreaker w"
    if "\<not> circuitBreakerEnabled opts"
  proof -
    have "\<not> (circuitBreakerEnabled opts \<and> breaker_blocks n w)" using that by simp
    from optimizeAPICall_cached [OF this assms(1) hit, of f] show ?thesis
      by (simp add: checked_breakers_disabled [OF that])
  qed
  show ?thesis using c1 c2 c3 by blast
qed

theorem cache_behind_breaker_witness:
  "cacheEnabled default_options
   \<and> map_of (storage (cache (tripped_cached_system 60000))) (PREFIX @ ''api_'' @ ''X'')
       = Some (Entry cached_entry)
   \<and> truthy (data cached_entry)
   \<and> breaker_blocks ''X'' (tripped_cached_system 60000)
   \<and> fst (optimizeAPICall demo_platform ''X'' working_api default_options
             (tripped_cached_system 60000))
       = \<lparr>result = Inl (CircuitOpenError ''X''), op_calls = 0, delays = []\<rparr>
   \<and> fst (optimizeAPICall demo_platform ''X'' working_api
             (default_options\<lparr>circuitBreakerEnabled := False\<rparr>) (tripped_cached_system 60000))
       = \<lparr>result = Inr (JStr ''cached''), op_calls = 0, delays = []\<rparr>"
proof -
  let ?w = "tripped_cached_system 60000"
  let ?off = "default_options\<lparr>circuitBreakerEnabled := False\<rparr>"
  have h1: "cacheEnabled default_options" "cacheEnabled ?off"
    by (simp_all add: default_options_def)
  have h2: "map_of (storage (cache ?w)) (PREFIX @ ''api_'' @ ''X'') = Some (Entry cached_entry)"
    by (simp add: tripped_cached_system_def)
  have h3: "clock ?w - timestamp cached_entry \<le> expireTime cached_entry"
    by (simp add: tripped_cached_system_def tripped_system_def cached_entry_def)
  have h4: "\<not> wx_throws demo_platform (GetStorageSync (PREFIX @ ''api_'' @ ''X''))"
    by (simp add: demo_platform_def)
  have h5: "JStr ''cached''
      = (if compressed cached_entry then decompressData demo_platform (data cached_entry)
         else data cached_entry)"
    by (simp add: cached_entry_def)
  have h6: "truthy (JStr ''cached'')" by simp
  have b: "breaker_blocks ''X'' ?w"
    by (simp add: breaker_blocks_def tripped_cached_system_def tripped_system_def
        tripped_breaker_def)
  have on: "circuitBreakerEnabled default_options" "\<not> circuitBreakerEnabled ?off"
    by (simp_all add: default_options_def)
  show ?thesis
    using h1(1) h2 b on
      cache_behind_breaker [OF h1(1) h2 h3 h4 h5 h6, of working_api]
      cache_behind_breaker [OF h1(2) h2 h3 h4 h5 h6, of working_api]
    by (simp add: cached_entry_def)
qed

text \<open>
  The claim that a valid cache entry is returned although the breaker is open fails: with
  the default options, the breaker of \<open>X\<close> open since 50000 and a valid cached value, the
  call at 60000 throws the circuit-open error.
\<close>

theorem cache_bypass_counterexample:
  "breaker_blocks ''X'' (tripped_cached_system 60000)
   \<and> fst (get demo_platform (clock (tripped_cached_system 60000)) (''api_'' @ ''X'')
             (cache (tripped_cached_system 60000))) = JStr ''cached''
   \<and> fst (optimizeAPICall demo_platform ''X'' working_api default_options
             (tripped_cached_system 60000))
       = \<lparr>result = Inl (CircuitOpenError ''X''), op_calls = 0, delays = []\<rparr>"
  by (simp add: optimizeAPICall_def isCircuitBreakerOpen_def catch_block_def monitor_end_sys_def
      recordAPIMetrics_def updateCircuitBreaker_def breaker_blocks_def get_def count_hit_def
      default_options_def tripped_cached_system_def cached_entry_def demo_platform_def
      tripped_system_def tripped_breaker_def fresh_system_def Let_def)

subsection \<open>Falsy results\<close>
















end
